theory Spec2Isabelle
  imports Complex_Main
begin

section \<open>Data model of dawid\_skene.py\<close>

text \<open>
  The arrays of the program are numpy arrays of float64. The embedding keeps their
  shapes and their contents, with two idealisations that every theorem below inherits:
  a count (an entry of the count tensor, or of the gold vector) is a natural number,
  as \<open>responses_to_counts\<close> produces it, and every other entry is a real number, so
  rounding, overflow and underflow are not modelled. The three places where the
  program meets a value that is not a real number are written out: \<open>np.log\<close> of a
  value that is not positive, the division by \<open>float(nPatients)\<close> when there is no
  patient, and the truth value of an array.
\<close>

datatype npfloat = Finite real | MinusInf | NaN

text \<open>
  How a call can fail. \<open>ValueError\<close>: \<open>list.index\<close> of an absent element, and the truth
  value of an array with more than one element. \<open>IndexError\<close>: an index outside an
  axis. \<open>SystemExit i log_L l temp\<close>: \<open>sys.exit()\<close> in \<open>calc_likelihood\<close>, with the four
  values it prints first. \<open>NotANumber\<close> is not a failure of the program: it marks the
  one point (\<open>m_step\<close> on no patient) where numpy goes on with NaN in every class
  marginal, which a list of reals cannot hold.
\<close>

datatype failure =
    ValueError
  | IndexError
  | SystemExit nat real npfloat npfloat
  | NotANumber

text \<open>An observation is \<open>(class_label, truth_label)\<close>; the truth label is the string \<open>t\<close> for gold.\<close>

type_synonym response = "int \<times> string"

text \<open>
  \<open>responses\<close> is an ordered dictionary from patients to dictionaries from observers to
  lists of observations: association lists, in the order of the keys.
\<close>

type_synonym ('p, 'o) responses = "('p \<times> ('o \<times> response list) list) list"

text \<open>A numpy array of shape \<open>[nPatients, nObservers, nClasses]\<close> (the shape survives an empty axis).\<close>

record count_tensor =
  nPatients :: nat
  nObservers :: nat
  nClasses :: nat
  cells :: "nat list list list"

definition cnt :: "count_tensor \<Rightarrow> nat \<Rightarrow> nat \<Rightarrow> nat \<Rightarrow> nat" where
  "cnt counts i k l = cells counts ! i ! k ! l"

definition wf_counts :: "count_tensor \<Rightarrow> bool" where
  "wf_counts counts \<longleftrightarrow>
     length (cells counts) = nPatients counts \<and>
     (\<forall>m \<in> set (cells counts).
        length m = nObservers counts \<and> (\<forall>r \<in> set m. length r = nClasses counts))"

text \<open>\<open>label_type\<close> is a pair of a name and its properties; the one property read is \<open>AM_noise\<close>.\<close>

type_synonym label_type = "string \<times> int"

definition AM_noise :: "label_type \<Rightarrow> int" where
  "AM_noise label_type = snd label_type"

section \<open>Loops that can fail\<close>

fun traverse :: "('a \<Rightarrow> failure + 'b) \<Rightarrow> 'a list \<Rightarrow> failure + 'b list" where
  "traverse f [] = Inr []"
| "traverse f (x # xs) =
     (case f x of
        Inl e \<Rightarrow> Inl e
      | Inr y \<Rightarrow> (case traverse f xs of Inl e \<Rightarrow> Inl e | Inr ys \<Rightarrow> Inr (y # ys)))"

fun fold_fail :: "('a \<Rightarrow> 's \<Rightarrow> failure + 's) \<Rightarrow> 'a list \<Rightarrow> 's \<Rightarrow> failure + 's" where
  "fold_fail f [] s = Inr s"
| "fold_fail f (x # xs) s =
     (case f x s of Inl e \<Rightarrow> Inl e | Inr s' \<Rightarrow> fold_fail f xs s')"

section \<open>responses\_to\_counts\<close>

text \<open>\<open>xs.index(x)\<close>: the first position of \<open>x\<close>, \<open>ValueError\<close> when there is none.\<close>

fun index_of :: "'a list \<Rightarrow> 'a \<Rightarrow> failure + nat" where
  "index_of [] x = Inl ValueError"
| "index_of (y # ys) x =
     (if y = x then Inr 0
      else (case index_of ys x of Inl e \<Rightarrow> Inl e | Inr n \<Rightarrow> Inr (Suc n)))"

text \<open>Every observer key met in the first pass, in the order met, repeats included.\<close>

definition observer_keys :: "('p, 'o) responses \<Rightarrow> 'o list" where
  "observer_keys responses = concat (map (\<lambda>(patient, obs). map fst obs) responses)"

text \<open>
  \<open>list(observers)\<close> lists a Python set, in an order the language leaves open. The
  embedding takes that listing as the parameter \<open>list_of_set\<close>, applied to the elements
  added to the set; what Python promises of it is \<open>set_listing\<close>.
\<close>

definition set_listing :: "('o list \<Rightarrow> 'o list) \<Rightarrow> bool" where
  "set_listing list_of_set \<longleftrightarrow>
     (\<forall>xs. distinct (list_of_set xs) \<and> set (list_of_set xs) = set xs)"

definition zeros3 :: "nat \<Rightarrow> nat \<Rightarrow> nat \<Rightarrow> nat list list list" where
  "zeros3 a b c = replicate a (replicate b (replicate c 0))"

text \<open>\<open>counts[i,k,j] += 1\<close>\<close>

definition incr :: "nat list list list \<Rightarrow> nat \<Rightarrow> nat \<Rightarrow> nat \<Rightarrow> nat list list list" where
  "incr cs i k j = cs[i := (cs ! i)[k := (cs ! i ! k)[j := cs ! i ! k ! j + 1]]]"

text \<open>The body of the innermost loop, lines 226 to 230.\<close>

fun count_response ::
  "int list \<Rightarrow> nat \<Rightarrow> nat \<Rightarrow> response \<Rightarrow> nat list list list \<times> nat list
     \<Rightarrow> failure + nat list list list \<times> nat list" where
  "count_response classes i k (class_label, truth_label) (cs, gold_data) =
     (case index_of classes class_label of
        Inl e \<Rightarrow> Inl e
      | Inr j \<Rightarrow>
          Inr (incr cs i k j,
               if class_label = 1 \<and> truth_label = ''t'' then gold_data[i := 1] else gold_data))"

text \<open>The loop over the observers of one patient, lines 223 to 230.\<close>

fun count_observer ::
  "int list \<Rightarrow> 'o list \<Rightarrow> nat \<Rightarrow> 'o \<times> response list \<Rightarrow> nat list list list \<times> nat list
     \<Rightarrow> failure + nat list list list \<times> nat list" where
  "count_observer classes observers i (observer, ik_responses) s =
     (case index_of observers observer of
        Inl e \<Rightarrow> Inl e
      | Inr k \<Rightarrow> fold_fail (count_response classes i k) ik_responses s)"

text \<open>The loop over the patients, lines 221 to 230.\<close>

fun count_patient ::
  "int list \<Rightarrow> 'p list \<Rightarrow> 'o list \<Rightarrow> 'p \<times> ('o \<times> response list) list
     \<Rightarrow> nat list list list \<times> nat list \<Rightarrow> failure + nat list list list \<times> nat list" where
  "count_patient classes patients observers (patient, obs) s =
     (case index_of patients patient of
        Inl e \<Rightarrow> Inl e
      | Inr i \<Rightarrow> fold_fail (count_observer classes observers i) obs s)"

definition responses_to_counts ::
  "('o list \<Rightarrow> 'o list) \<Rightarrow> ('p, 'o) responses \<Rightarrow> int list
     \<Rightarrow> failure + 'p list \<times> 'o list \<times> int list \<times> count_tensor \<times> nat list" where
  "responses_to_counts list_of_set responses classes =
     (let patients = map fst responses;
          nPatients = length patients;
          nClasses = length classes;
          observers = list_of_set (observer_keys responses);
          nObservers = length observers
      in case fold_fail (count_patient classes patients observers) responses
                (zeros3 nPatients nObservers nClasses, replicate nPatients 0) of
           Inl e \<Rightarrow> Inl e
         | Inr (cs, gold_data) \<Rightarrow>
             Inr (patients, observers, classes,
                  \<lparr>nPatients = nPatients, nObservers = nObservers, nClasses = nClasses,
                   cells = cs\<rparr>,
                  gold_data))"

section \<open>The blind-spot test\<close>

text \<open>
  The truth value Python takes of a numpy array of booleans: that of its element when
  it has one, \<open>ValueError\<close> when it has more. For an empty array numpy up to version
  2.1 answers \<open>False\<close> (with a deprecation warning), which is what is modelled.
\<close>

fun array_truth :: "bool list \<Rightarrow> failure + bool" where
  "array_truth [] = Inr False"
| "array_truth [b] = Inr b"
| "array_truth (b # c # bs) = Inl ValueError"

text \<open>
  The condition of lines 257 and 332,
  \<open>(AM_noise == 0 and counts[p,:,1] > 0) or (AM_noise == 2 and gold_data[p] > 0)\<close>:
  when \<open>AM_noise\<close> is 0 the left operand of \<open>or\<close> is the array \<open>counts[p,:,1] > 0\<close>,
  whose truth value is taken; the right operand is then false.
\<close>

definition is_blindspot :: "count_tensor \<Rightarrow> nat list \<Rightarrow> label_type \<Rightarrow> nat \<Rightarrow> failure + bool" where
  "is_blindspot counts gold_data label_type p =
     (if AM_noise label_type = 0 then
        (if nClasses counts < 2 then Inl IndexError
         else array_truth (map (\<lambda>k. cnt counts p k 1 > 0) [0..<nObservers counts]))
      else if AM_noise label_type = 2 then
        (if p < length gold_data then Inr (gold_data ! p > 0) else Inl IndexError)
      else Inr False)"

text \<open>\<open>patient_classes[p,1] = 1; patient_classes[p,0] = 0\<close> on a row of \<open>n\<close> zeros.\<close>

definition blindspot_row :: "real list \<Rightarrow> failure + real list" where
  "blindspot_row row = (if length row < 2 then Inl IndexError else Inr (row[1 := 1, 0 := 0]))"

section \<open>initialize\<close>

text \<open>\<open>np.sum(counts,1)[p,:]\<close>\<close>

definition response_sums :: "count_tensor \<Rightarrow> nat \<Rightarrow> nat list" where
  "response_sums counts p =
     map (\<lambda>j. sum_list (map (\<lambda>k. cnt counts p k j) [0..<nObservers counts]))
       [0..<nClasses counts]"

text \<open>One turn of the loop of lines 256 to 265: the row of patient \<open>p\<close>, and whether it was forced.\<close>

definition initialize_row ::
  "count_tensor \<Rightarrow> nat list \<Rightarrow> label_type \<Rightarrow> nat \<Rightarrow> failure + real list \<times> bool" where
  "initialize_row counts gold_data label_type p =
     (case is_blindspot counts gold_data label_type p of
        Inl e \<Rightarrow> Inl e
      | Inr True \<Rightarrow>
          (case blindspot_row (replicate (nClasses counts) 0) of
             Inl e \<Rightarrow> Inl e
           | Inr row \<Rightarrow> Inr (row, True))
      | Inr False \<Rightarrow>
          (let p_sum = sum_list (response_sums counts p)
           in if p_sum > 0
              then Inr (map (\<lambda>s. real s / real p_sum) (response_sums counts p), False)
              else Inr (replicate (nClasses counts) 0, False)))"

definition initialize ::
  "count_tensor \<Rightarrow> nat list \<Rightarrow> label_type \<Rightarrow> failure + real list list \<times> nat list" where
  "initialize counts gold_data label_type =
     (case traverse (initialize_row counts gold_data label_type) [0..<nPatients counts] of
        Inl e \<Rightarrow> Inl e
      | Inr rows \<Rightarrow>
          Inr (map fst rows,
               filter (\<lambda>p. snd (rows ! p)) [0..<nPatients counts]))"

section \<open>m\_step\<close>

text \<open>\<open>np.sum(patient_classes,0)[j]\<close> over the \<open>n\<close> rows.\<close>

definition column_sum :: "real list list \<Rightarrow> nat \<Rightarrow> nat \<Rightarrow> real" where
  "column_sum patient_classes n j = sum_list (map (\<lambda>i. patient_classes ! i ! j) [0..<n])"

text \<open>\<open>np.dot(patient_classes[:,j], counts[:,k,l])\<close>\<close>

definition soft_count :: "count_tensor \<Rightarrow> real list list \<Rightarrow> nat \<Rightarrow> nat \<Rightarrow> nat \<Rightarrow> real" where
  "soft_count counts patient_classes k j l =
     sum_list (map (\<lambda>i. patient_classes ! i ! j * real (cnt counts i k l))
                 [0..<nPatients counts])"

text \<open>
  The division of a row by its sum when the sum is positive (lines 304 to 306 and 342
  to 344); the row is kept as it is otherwise.
\<close>

definition normalize_row :: "real list \<Rightarrow> real list" where
  "normalize_row row = (let s = sum_list row in if s > 0 then map (\<lambda>x. x / s) row else row)"

text \<open>One turn of the loop over \<open>j\<close>, lines 295 to 306: the row \<open>error_rates[k,j,:]\<close>.\<close>

definition m_step_row ::
  "count_tensor \<Rightarrow> real list list \<Rightarrow> label_type \<Rightarrow> nat \<Rightarrow> nat \<Rightarrow> failure + real list" where
  "m_step_row counts patient_classes label_type k j =
     (if AM_noise label_type = 0 \<and> j = 0 then
        (if nClasses counts < 2 then Inl IndexError
         else Inr ((replicate (nClasses counts) 0)[0 := 1, 1 := 0]))
      else Inr (normalize_row (map (soft_count counts patient_classes k j) [0..<nClasses counts])))"

text \<open>
  \<open>review_counts\<close>, \<open>gold_data\<close> and \<open>iteration\<close> are parameters the function does not read.
  With no patient the class marginals, if there are any, are \<open>0.0/0.0\<close>, reported once
  the loops are done.
\<close>

definition m_step ::
  "count_tensor \<Rightarrow> real list \<Rightarrow> nat list \<Rightarrow> real list list \<Rightarrow> label_type \<Rightarrow> int
     \<Rightarrow> failure + real list \<times> real list list list" where
  "m_step counts review_counts gold_data patient_classes label_type iteration =
     (let class_marginals =
            map (\<lambda>j. column_sum patient_classes (nPatients counts) j / real (nPatients counts))
              [0..<nClasses counts]
      in case traverse (\<lambda>k. traverse (m_step_row counts patient_classes label_type k)
                               [0..<nClasses counts]) [0..<nObservers counts] of
           Inl e \<Rightarrow> Inl e
         | Inr error_rates \<Rightarrow>
             if nPatients counts = 0 \<and> 0 < nClasses counts then Inl NotANumber
             else Inr (class_marginals, error_rates))"

section \<open>e\_step\<close>

text \<open>\<open>np.power\<close> of an error rate and a count: IEEE \<open>pow\<close>, which is 1 at a zero exponent.\<close>

definition np_power :: "real \<Rightarrow> nat \<Rightarrow> real" where
  "np_power x c = x ^ c"

text \<open>\<open>np.prod(np.power(error_rates[:,j,:], counts[i,:,:]))\<close>\<close>

definition class_likelihood :: "real list list list \<Rightarrow> count_tensor \<Rightarrow> nat \<Rightarrow> nat \<Rightarrow> real" where
  "class_likelihood error_rates counts i j =
     prod_list (map (\<lambda>k. prod_list (map (\<lambda>l. np_power (error_rates ! k ! j ! l) (cnt counts i k l))
                                       [0..<nClasses counts]))
                  [0..<nObservers counts])"

definition estimate :: "real list \<Rightarrow> real list list list \<Rightarrow> count_tensor \<Rightarrow> nat \<Rightarrow> nat \<Rightarrow> real" where
  "estimate class_marginals error_rates counts i j =
     class_marginals ! j * class_likelihood error_rates counts i j"

text \<open>
  The loop over \<open>j\<close> of lines 331 to 339 on the row of patient \<open>i\<close>. The blind-spot test
  is inside the loop, and its \<open>continue\<close> goes to the next \<open>j\<close>.
\<close>

fun e_step_classes ::
  "count_tensor \<Rightarrow> nat list \<Rightarrow> real list \<Rightarrow> real list list list \<Rightarrow> label_type \<Rightarrow> nat
     \<Rightarrow> nat list \<Rightarrow> real list \<Rightarrow> failure + real list" where
  "e_step_classes counts gold_data class_marginals error_rates label_type i [] row = Inr row"
| "e_step_classes counts gold_data class_marginals error_rates label_type i (j # js) row =
     (case is_blindspot counts gold_data label_type i of
        Inl e \<Rightarrow> Inl e
      | Inr True \<Rightarrow>
          (case blindspot_row row of
             Inl e \<Rightarrow> Inl e
           | Inr row' \<Rightarrow>
               e_step_classes counts gold_data class_marginals error_rates label_type i js row')
      | Inr False \<Rightarrow>
          e_step_classes counts gold_data class_marginals error_rates label_type i js
            (row[j := estimate class_marginals error_rates counts i j]))"

definition e_step_row ::
  "count_tensor \<Rightarrow> nat list \<Rightarrow> real list \<Rightarrow> real list list list \<Rightarrow> label_type \<Rightarrow> nat
     \<Rightarrow> failure + real list" where
  "e_step_row counts gold_data class_marginals error_rates label_type i =
     (case e_step_classes counts gold_data class_marginals error_rates label_type i
             [0..<nClasses counts] (replicate (nClasses counts) 0) of
        Inl e \<Rightarrow> Inl e
      | Inr row \<Rightarrow> Inr (normalize_row row))"

definition e_step ::
  "count_tensor \<Rightarrow> nat list \<Rightarrow> real list \<Rightarrow> real list list list \<Rightarrow> label_type
     \<Rightarrow> failure + real list list" where
  "e_step counts gold_data class_marginals error_rates label_type =
     traverse (e_step_row counts gold_data class_marginals error_rates label_type)
       [0..<nPatients counts]"

section \<open>calc\_likelihood\<close>

definition np_log :: "real \<Rightarrow> npfloat" where
  "np_log x = (if x > 0 then Finite (ln x) else if x = 0 then MinusInf else NaN)"

fun np_add :: "real \<Rightarrow> npfloat \<Rightarrow> npfloat" where
  "np_add a (Finite b) = Finite (a + b)"
| "np_add a MinusInf = MinusInf"
| "np_add a NaN = NaN"

fun np_isnan :: "npfloat \<Rightarrow> bool" where
  "np_isnan NaN = True"
| "np_isnan (Finite x) = False"
| "np_isnan MinusInf = False"

fun np_isinf :: "npfloat \<Rightarrow> bool" where
  "np_isinf MinusInf = True"
| "np_isinf (Finite x) = False"
| "np_isinf NaN = False"

text \<open>The inner loop, lines 368 to 374.\<close>

definition patient_likelihood ::
  "real list \<Rightarrow> real list list list \<Rightarrow> count_tensor \<Rightarrow> nat \<Rightarrow> real" where
  "patient_likelihood class_marginals error_rates counts i =
     sum_list (map (\<lambda>j. class_marginals ! j * class_likelihood error_rates counts i j)
                 [0..<nClasses counts])"

text \<open>The loop over the patients, lines 367 to 382, from the running total \<open>log_L\<close>.\<close>

fun calc_likelihood_loop ::
  "count_tensor \<Rightarrow> real list \<Rightarrow> real list list list \<Rightarrow> nat list \<Rightarrow> real \<Rightarrow> failure + real" where
  "calc_likelihood_loop counts class_marginals error_rates [] log_L = Inr log_L"
| "calc_likelihood_loop counts class_marginals error_rates (i # is) log_L =
     (let l = np_log (patient_likelihood class_marginals error_rates counts i);
          temp = np_add log_L l
      in if np_isnan temp \<or> np_isinf temp then Inl (SystemExit i log_L l temp)
         else (case temp of
                 Finite t \<Rightarrow> calc_likelihood_loop counts class_marginals error_rates is t
               | _ \<Rightarrow> Inl (SystemExit i log_L l temp)))"

definition calc_likelihood ::
  "count_tensor \<Rightarrow> real list \<Rightarrow> real list list list \<Rightarrow> failure + real" where
  "calc_likelihood counts class_marginals error_rates =
     calc_likelihood_loop counts class_marginals error_rates [0..<nPatients counts] 0"

section \<open>run\<close>

text \<open>\<open>np.sum(np.abs(a - b))\<close> on arrays of one shape.\<close>

definition abs_diff1 :: "real list \<Rightarrow> real list \<Rightarrow> real" where
  "abs_diff1 a b = sum_list (map2 (\<lambda>x y. \<bar>x - y\<bar>) a b)"

definition abs_diff3 :: "real list list list \<Rightarrow> real list list list \<Rightarrow> real" where
  "abs_diff3 a b = sum_list (map2 (\<lambda>m n. sum_list (map2 abs_diff1 m n)) a b)"

text \<open>
  The \<open>while not converged\<close> loop of lines 120 to 146, entered with the value \<open>iteration\<close>
  has before the increment; \<open>old\<close> is the pair of \<open>old_class_marginals\<close> and
  \<open>old_error_rates\<close>, \<open>None\<close> as in the program. The result is the value \<open>iteration\<close> has
  when the loop is left, by its test or by a failure, with what \<open>run\<close> returns.
  \<open>NotANumber\<close> comes from \<open>m_step\<close> only when there is no patient, that is for an empty
  dictionary of responses (and some class). There the program goes on with NaN class
  marginals: \<open>e_step\<close> returns the empty posterior and \<open>calc_likelihood\<close> returns 0.0, having no
  patient to read a class marginal for; the difference of the class marginals is NaN,
  which is not below the tolerance; so the loop is left when \<open>old\<close> is not \<open>None\<close> and
  \<open>iteration\<close> exceeds \<open>max_iter\<close>. The model does the same turns and reports
  \<open>NotANumber\<close> for the result with NaN class marginals; the value it keeps in \<open>old\<close> is
  read only for not being \<open>None\<close>.
\<close>

function em_loop ::
  "count_tensor \<Rightarrow> real list \<Rightarrow> nat list \<Rightarrow> label_type \<Rightarrow> real \<Rightarrow> int \<Rightarrow> int
     \<Rightarrow> (real list \<times> real list list list) option \<Rightarrow> real list list
     \<Rightarrow> int \<times> (failure + real list list \<times> real list \<times> real list list list)" where
  "em_loop counts review_counts gold_data label_type tol max_iter iteration old patient_classes =
     (case m_step counts review_counts gold_data patient_classes label_type (iteration + 1) of
        Inl NotANumber \<Rightarrow>
          if old \<noteq> None \<and> iteration + 1 > max_iter then (iteration + 1, Inl NotANumber)
          else em_loop counts review_counts gold_data label_type tol max_iter
                 (iteration + 1) (Some ([], [])) []
      | Inl e \<Rightarrow> (iteration + 1, Inl e)
      | Inr (class_marginals, error_rates) \<Rightarrow>
          (case e_step counts gold_data class_marginals error_rates label_type of
             Inl e \<Rightarrow> (iteration + 1, Inl e)
           | Inr patient_classes' \<Rightarrow>
               (case calc_likelihood counts class_marginals error_rates of
                  Inl e \<Rightarrow> (iteration + 1, Inl e)
                | Inr log_L \<Rightarrow>
                    (case old of
                       None \<Rightarrow>
                         em_loop counts review_counts gold_data label_type tol max_iter
                           (iteration + 1) (Some (class_marginals, error_rates)) patient_classes'
                     | Some (old_class_marginals, old_error_rates) \<Rightarrow>
                         if (abs_diff1 class_marginals old_class_marginals < tol
                             \<and> abs_diff3 error_rates old_error_rates < tol)
                            \<or> iteration + 1 > max_iter
                         then (iteration + 1,
                               Inr (patient_classes', class_marginals, error_rates))
                         else em_loop counts review_counts gold_data label_type tol max_iter
                                (iteration + 1) (Some (class_marginals, error_rates))
                                patient_classes'))))"
  by pat_completeness auto
termination
  by (relation "measure (\<lambda>(counts, review_counts, gold_data, label_type, tol, max_iter,
                            iteration, old, patient_classes).
                    nat (max_iter - iteration) + (if old = None then 1 else 0))")
     auto

declare em_loop.simps [simp del]

text \<open>
  \<open>run\<close> up to the end of the loop. The printing and \<open>write_to_file\<close> that follow it, and
  the parameters \<open>output_filename\<close> and \<open>init\<close>, which only they or nothing read, are left
  out.
\<close>

definition run ::
  "('o list \<Rightarrow> 'o list) \<Rightarrow> ('p, 'o) responses \<Rightarrow> real list \<Rightarrow> int list \<Rightarrow> label_type
     \<Rightarrow> real \<Rightarrow> int
     \<Rightarrow> int \<times> (failure + real list list \<times> real list \<times> real list list list)" where
  "run list_of_set responses review_counts classes label_type tol max_iter =
     (case responses_to_counts list_of_set responses classes of
        Inl e \<Rightarrow> (0, Inl e)
      | Inr (patients, observers, classes', counts, gold_data) \<Rightarrow>
          (case initialize counts gold_data label_type of
             Inl e \<Rightarrow> (0, Inl e)
           | Inr (patient_classes, reviewed_blindspots) \<Rightarrow>
               em_loop counts review_counts gold_data label_type tol max_iter 0 None
                 patient_classes))"

text \<open>
  The outcomes with which the program returns from \<open>run\<close>: a result, or the result with
  NaN class marginals.
\<close>

definition returned :: "failure + 'a \<Rightarrow> bool" where
  "returned outcome = (case outcome of Inr r \<Rightarrow> True | Inl e \<Rightarrow> e = NotANumber)"

section \<open>The formulas of the specification\<close>

text \<open>
  The unnormalized score of class \<open>j\<close> for item \<open>i\<close> as the specification words it: the
  class marginal times the product, over all observers \<open>k\<close> and all classes \<open>l\<close>, of the
  error rate to the power of the count.
\<close>

definition spec_score :: "real list \<Rightarrow> real list list list \<Rightarrow> count_tensor \<Rightarrow> nat \<Rightarrow> nat \<Rightarrow> real" where
  "spec_score class_marginals error_rates counts i j =
     class_marginals ! j *
       (\<Prod>k<nObservers counts. \<Prod>l<nClasses counts. (error_rates ! k ! j ! l) ^ cnt counts i k l)"

text \<open>
  The likelihood of item \<open>i\<close> (the sum of the scores over the classes), the running
  total of its logarithm before item \<open>n\<close>, and the value that total takes at item \<open>i\<close>
  (\<open>temp\<close> in the program), which is not finite when it is NaN or infinite.
\<close>

definition spec_likelihood :: "real list \<Rightarrow> real list list list \<Rightarrow> count_tensor \<Rightarrow> nat \<Rightarrow> real" where
  "spec_likelihood class_marginals error_rates counts i =
     (\<Sum>j<nClasses counts. spec_score class_marginals error_rates counts i j)"

definition spec_partial :: "real list \<Rightarrow> real list list list \<Rightarrow> count_tensor \<Rightarrow> nat \<Rightarrow> real" where
  "spec_partial class_marginals error_rates counts n =
     (\<Sum>i<n. ln (spec_likelihood class_marginals error_rates counts i))"

definition spec_accumulated ::
  "real list \<Rightarrow> real list list list \<Rightarrow> count_tensor \<Rightarrow> nat \<Rightarrow> npfloat" where
  "spec_accumulated class_marginals error_rates counts i =
     np_add (spec_partial class_marginals error_rates counts i)
       (np_log (spec_likelihood class_marginals error_rates counts i))"

definition nonfinite :: "npfloat \<Rightarrow> bool" where
  "nonfinite x \<longleftrightarrow> np_isnan x \<or> np_isinf x"

text \<open>
  The soft count of the M-step: the sum over the items of the posterior of class \<open>j\<close>
  times the count of class \<open>l\<close> from observer \<open>k\<close>.
\<close>

definition spec_soft_count :: "count_tensor \<Rightarrow> real list list \<Rightarrow> nat \<Rightarrow> nat \<Rightarrow> nat \<Rightarrow> real" where
  "spec_soft_count counts patient_classes k j l =
     (\<Sum>i<nPatients counts. patient_classes ! i ! j * real (cnt counts i k l))"

text \<open>
  The observations of item \<open>p\<close> by observer \<open>ob\<close> (\<open>responses[p][ob]\<close>, none when a key is
  absent), the number of them with class label \<open>c\<close>, and whether some observation of
  item \<open>p\<close> has class label 1 and the gold flag \<open>t\<close>.
\<close>

definition observations :: "('p, 'o) responses \<Rightarrow> 'p \<Rightarrow> 'o \<Rightarrow> response list" where
  "observations responses p ob =
     (case map_of responses p of
        None \<Rightarrow> []
      | Some obs \<Rightarrow> (case map_of obs ob of None \<Rightarrow> [] | Some rs \<Rightarrow> rs))"

definition spec_count :: "('p, 'o) responses \<Rightarrow> 'p \<Rightarrow> 'o \<Rightarrow> int \<Rightarrow> nat" where
  "spec_count responses p ob c =
     length (filter (\<lambda>r. fst r = c) (observations responses p ob))"

definition is_gold_one :: "response \<Rightarrow> bool" where
  "is_gold_one r \<longleftrightarrow> fst r = 1 \<and> snd r = ''t''"

definition spec_gold :: "('p, 'o) responses \<Rightarrow> 'p \<Rightarrow> bool" where
  "spec_gold responses p =
     (case map_of responses p of
        None \<Rightarrow> False
      | Some obs \<Rightarrow> list_ex (\<lambda>(ob, rs). list_ex is_gold_one rs) obs)"

text \<open>The shape of the cells of a count tensor, by index.\<close>

definition shape3 :: "nat list list list \<Rightarrow> nat \<Rightarrow> nat \<Rightarrow> nat \<Rightarrow> bool" where
  "shape3 cs a b c \<longleftrightarrow>
     length cs = a \<and> (\<forall>i<a. length (cs ! i) = b \<and> (\<forall>k<b. length (cs ! i ! k) = c))"

text \<open>
  One iteration as the specification describes it: the M-step on the current posterior,
  the E-step with the new parameters, the log-likelihood; and \<open>n\<close> iterations in a row,
  numbered from 1, from a posterior and no previous parameters. The state is the
  posterior with the parameters of the last iteration (\<open>None\<close> before the first).
\<close>

definition em_turn ::
  "count_tensor \<Rightarrow> real list \<Rightarrow> nat list \<Rightarrow> label_type \<Rightarrow> int \<Rightarrow> real list list
     \<Rightarrow> failure + real list list \<times> (real list \<times> real list list list) option" where
  "em_turn counts review_counts gold_data label_type iteration patient_classes =
     (case m_step counts review_counts gold_data patient_classes label_type iteration of
        Inl e \<Rightarrow> Inl e
      | Inr (class_marginals, error_rates) \<Rightarrow>
          (case e_step counts gold_data class_marginals error_rates label_type of
             Inl e \<Rightarrow> Inl e
           | Inr patient_classes' \<Rightarrow>
               (case calc_likelihood counts class_marginals error_rates of
                  Inl e \<Rightarrow> Inl e
                | Inr log_L \<Rightarrow> Inr (patient_classes', Some (class_marginals, error_rates)))))"

fun em_turns ::
  "count_tensor \<Rightarrow> real list \<Rightarrow> nat list \<Rightarrow> label_type \<Rightarrow> nat \<Rightarrow> real list list
     \<Rightarrow> failure + real list list \<times> (real list \<times> real list list list) option" where
  "em_turns counts review_counts gold_data label_type 0 patient_classes =
     Inr (patient_classes, None)"
| "em_turns counts review_counts gold_data label_type (Suc n) patient_classes =
     (case em_turns counts review_counts gold_data label_type n patient_classes of
        Inl e \<Rightarrow> Inl e
      | Inr (patient_classes', old) \<Rightarrow>
          em_turn counts review_counts gold_data label_type (int (Suc n)) patient_classes')"

section \<open>Loops, sums and products\<close>

lemma traverse_Inr:
  "traverse f xs = Inr ys \<Longrightarrow> length ys = length xs \<and> (\<forall>i<length xs. f (xs ! i) = Inr (ys ! i))"
proof (induction xs arbitrary: ys)
  case Nil
  then show ?case by simp
next
  case (Cons x xs)
  then obtain y ys' where fx: "f x = Inr y" and t: "traverse f xs = Inr ys'" and ys: "ys = y # ys'"
    by (auto split: sum.splits)
  from Cons.IH[OF t] show ?case using fx ys by (auto simp: nth_Cons split: nat.splits)
qed

lemma traverse_map:
  "(\<And>x. x \<in> set xs \<Longrightarrow> f x = Inr (g x)) \<Longrightarrow> traverse f xs = Inr (map g xs)"
  by (induction xs) auto

lemma traverse_upt_nth:
  assumes "traverse f [0..<n] = Inr ys" "i < n"
  shows "f i = Inr (ys ! i)" "length ys = n"
  using traverse_Inr[OF assms(1)] assms(2) by auto

lemma fold_update_upt:
  "m \<le> length row \<Longrightarrow> fold (\<lambda>j r. r[j := f j]) [0..<m] row = map f [0..<m] @ drop m row"
proof (induction m)
  case 0
  then show ?case by simp
next
  case (Suc m)
  then show ?case
    by (simp add: list_update_append Cons_nth_drop_Suc[symmetric] upd_conv_take_nth_drop)
qed

lemma prod_list_upt: "prod_list (map f [0..<n]) = (\<Prod>k<n. (f k :: real))"
  by (induction n) (simp_all add: mult.commute)

lemma sum_list_upt: "sum_list (map f [0..<n]) = (\<Sum>k<n. (f k :: real))"
  by (induction n) (simp_all add: add.commute)

lemma class_likelihood_prod:
  "class_likelihood error_rates counts i j =
     (\<Prod>k<nObservers counts. \<Prod>l<nClasses counts. (error_rates ! k ! j ! l) ^ cnt counts i k l)"
  by (simp add: class_likelihood_def np_power_def prod_list_upt)

lemma sum_list_div: "sum_list (map (\<lambda>x. x / s) row) = sum_list row / (s::real)"
  by (induction row) (simp_all add: add_divide_distrib)

lemma normalize_nonneg:
  assumes "\<And>x. x \<in> set row \<Longrightarrow> 0 \<le> x"
  shows "normalize_row row =
           (if sum_list row = 0 then replicate (length row) 0
            else map (\<lambda>x. x / sum_list row) row)"
proof (cases "sum_list row = 0")
  case True
  then have "\<forall>x\<in>set row. x = 0" using assms by (simp add: sum_list_nonneg_eq_0_iff)
  then have "row = replicate (length row) 0"
    by (simp add: list_eq_iff_nth_eq)
  then show ?thesis using True by (simp add: normalize_row_def)
next
  case False
  moreover have "0 \<le> sum_list row" using assms by (rule sum_list_nonneg)
  ultimately show ?thesis by (simp add: normalize_row_def)
qed

lemma sum_normalize_nonneg:
  assumes "\<And>x. x \<in> set row \<Longrightarrow> 0 \<le> x"
  shows "sum_list (normalize_row row) = 1 \<or> normalize_row row = replicate (length row) 0"
  by (simp add: normalize_nonneg[OF assms] sum_list_div)

lemma e_step_classes_plain:
  "is_blindspot counts gold_data label_type i = Inr False \<Longrightarrow>
   e_step_classes counts gold_data class_marginals error_rates label_type i js row =
     Inr (fold (\<lambda>j r. r[j := estimate class_marginals error_rates counts i j]) js row)"
  by (induction js arbitrary: row) simp_all

lemma upd_twice: "r[Suc 0 := a, 0 := b, Suc 0 := a, 0 := b] = r[Suc 0 := a, 0 := b]"
  by (cases r, simp, rename_tac x xs, case_tac xs, simp_all)

lemma e_step_classes_forced:
  "is_blindspot counts gold_data label_type i = Inr True \<Longrightarrow> js \<noteq> [] \<Longrightarrow>
   e_step_classes counts gold_data class_marginals error_rates label_type i js row =
     (if length row < 2 then Inl IndexError else Inr (row[1 := 1, 0 := 0]))"
proof (induction js arbitrary: row)
  case Nil
  then show ?case by simp
next
  case (Cons j js)
  show ?case
  proof (cases "js = []")
    case True
    then show ?thesis using Cons.prems by (simp add: blindspot_row_def)
  next
    case False
    then show ?thesis using Cons by (simp add: blindspot_row_def upd_twice)
  qed
qed

lemma e_step_row_plain:
  assumes "is_blindspot counts gold_data label_type i = Inr False"
  shows "e_step_row counts gold_data class_marginals error_rates label_type i =
           Inr (normalize_row (map (estimate class_marginals error_rates counts i) [0..<nClasses counts]))"
  by (simp add: e_step_row_def e_step_classes_plain[OF assms] fold_update_upt)

lemma forced_row:
  "2 \<le> n \<Longrightarrow> (replicate n (0::real))[Suc 0 := 1, 0 := 0] = 0 # 1 # replicate (n - 2) 0"
  by (cases n; simp) (rename_tac m, case_tac m; simp)

lemma e_step_row_forced:
  assumes "is_blindspot counts gold_data label_type i = Inr True" "2 \<le> nClasses counts"
  shows "e_step_row counts gold_data class_marginals error_rates label_type i =
           Inr (0 # 1 # replicate (nClasses counts - 2) 0)"
proof -
  have ne: "[0..<nClasses counts] \<noteq> []" using assms(2) by simp
  show ?thesis
    using assms(2)
    by (simp add: e_step_row_def e_step_classes_forced[OF assms(1) ne] forced_row normalize_row_def sum_list_replicate)
qed


section \<open>The E-step\<close>

lemma estimate_spec: "estimate cm er counts i j = spec_score cm er counts i j"
  by (simp add: estimate_def spec_score_def class_likelihood_prod)

lemma spec_score_nonneg:
  assumes "\<forall>j<nClasses counts. 0 \<le> class_marginals ! j"
    and "\<forall>k<nObservers counts. \<forall>j<nClasses counts. \<forall>l<nClasses counts. 0 \<le> error_rates ! k ! j ! l"
    and "j < nClasses counts"
  shows "0 \<le> spec_score class_marginals error_rates counts i j"
  unfolding spec_score_def using assms
  by (intro mult_nonneg_nonneg prod_nonneg) auto

text \<open>
  Claim C1. For an item \<open>i\<close> to which the blind-spot test does not apply (every item
  when \<open>AM_noise\<close> is 1), the row the E-step returns is, class by class, the score of the specification divided by the sum
  of the scores over the classes, and a row of zeros when that sum is zero. The class
  marginals and the error rates are probabilities, so not negative.
\<close>

theorem e_step_posterior:
  assumes "AM_noise label_type = 1 \<or> is_blindspot counts gold_data label_type i = Inr False"
    and "i < nPatients counts"
    and "\<forall>j<nClasses counts. 0 \<le> class_marginals ! j"
    and "\<forall>k<nObservers counts. \<forall>j<nClasses counts. \<forall>l<nClasses counts.
           0 \<le> error_rates ! k ! j ! l"
    and "e_step counts gold_data class_marginals error_rates label_type = Inr patient_classes"
  shows "patient_classes ! i =
           (if (\<Sum>j<nClasses counts. spec_score class_marginals error_rates counts i j) = 0
            then replicate (nClasses counts) 0
            else map (\<lambda>j. spec_score class_marginals error_rates counts i j /
                            (\<Sum>j<nClasses counts. spec_score class_marginals error_rates counts i j))
                   [0..<nClasses counts])"
proof -
  let ?scores = "map (spec_score class_marginals error_rates counts i) [0..<nClasses counts]"
  have "e_step_row counts gold_data class_marginals error_rates label_type i
          = Inr (patient_classes ! i)"
    using traverse_upt_nth(1)[OF assms(5)[unfolded e_step_def] assms(2)] .
  moreover have "is_blindspot counts gold_data label_type i = Inr False"
    using assms(1) by (auto simp: is_blindspot_def)
  ultimately have row: "patient_classes ! i = normalize_row ?scores"
    by (simp add: e_step_row_plain estimate_spec[abs_def])
  have nonneg: "\<And>x. x \<in> set ?scores \<Longrightarrow> 0 \<le> x"
    using spec_score_nonneg[OF assms(3,4)] by auto
  have n: "normalize_row ?scores =
             (if sum_list ?scores = 0 then replicate (length ?scores) 0
              else map (\<lambda>x. x / sum_list ?scores) ?scores)"
    by (rule normalize_nonneg) (rule nonneg)
  have s: "sum_list ?scores = (\<Sum>j<nClasses counts. spec_score class_marginals error_rates counts i j)"
    by (simp add: sum_list_upt)
  show ?thesis unfolding row n s by (simp add: comp_def)
qed


theorem e_step_posterior_witness:
  "AM_noise (''average'', 1) = 1
   \<and> e_step \<lparr>nPatients = 2, nObservers = 1, nClasses = 2, cells = [[[2, 0]], [[1, 1]]]\<rparr>
       [0, 0] [1/2, 1/2] [[[1, 0], [1/2, 1/2]]] (''average'', 1) = Inr [[4/5, 1/5], [0, 1]]
   \<and> [4/5, 1/5] =
       map (\<lambda>j. spec_score [1/2, 1/2] [[[1, 0], [1/2, 1/2]]]
                   \<lparr>nPatients = 2, nObservers = 1, nClasses = 2, cells = [[[2, 0]], [[1, 1]]]\<rparr> 0 j / (5/8))
         [0..<2]"
proof -
  let ?c = "\<lparr>nPatients = 2, nObservers = 1, nClasses = 2, cells = [[[2, 0]], [[1, 1]]]\<rparr>"
  let ?er = "[[[1, 0], [1/2, 1/2 :: real]]]"
  have a: "AM_noise (''average'', 1) = 1" by (simp add: AM_noise_def)
  then have h1: "AM_noise (''average'', 1) = 1
      \<or> is_blindspot ?c [0, 0] (''average'', 1) 0 = Inr False" ..
  have h2: "0 < nPatients ?c" by simp
  have h3: "\<forall>j<nClasses ?c. 0 \<le> [1/2, 1/2 :: real] ! j"
    by (simp add: less_Suc_eq numeral_2_eq_2)
  have h4: "\<forall>k<nObservers ?c. \<forall>j<nClasses ?c. \<forall>l<nClasses ?c. 0 \<le> ?er ! k ! j ! l"
    by (simp add: less_Suc_eq numeral_2_eq_2)
  have h5: "e_step ?c [0, 0] [1/2, 1/2] ?er (''average'', 1) = Inr [[4/5, 1/5], [0, 1]]"
    by code_simp
  have s: "(\<Sum>j<nClasses ?c. spec_score [1/2, 1/2] ?er ?c 0 j) = 5/8"
    by (simp add: spec_score_def cnt_def numeral_2_eq_2)
  show ?thesis
    using e_step_posterior[OF h1 h2 h3 h4 h5] a h5 unfolding s by simp
qed


section \<open>Rows of the posterior\<close>

lemma sum_list_real_div:
  "sum_list (map (\<lambda>s. real s / c) (xs :: nat list)) = real (sum_list xs) / c"
  by (induction xs) (simp_all add: add_divide_distrib)

lemma initialize_row_normalized:
  assumes "initialize_row counts gold_data label_type p = Inr (row, b)"
  shows "sum_list row = 1 \<or> row = replicate (nClasses counts) 0"
proof (cases "is_blindspot counts gold_data label_type p")
  case (Inl e)
  then show ?thesis using assms by (simp add: initialize_row_def)
next
  case (Inr t)
  show ?thesis
  proof (cases t)
    case True
    with Inr assms have "2 \<le> nClasses counts"
      and "row = (replicate (nClasses counts) 0)[Suc 0 := 1, 0 := 0]"
      by (auto simp: initialize_row_def blindspot_row_def split: if_splits)
    then show ?thesis by (simp add: forced_row sum_list_replicate)
  next
    case False
    let ?rs = "response_sums counts p"
    show ?thesis
    proof (cases "0 < sum_list ?rs")
      case True
      with False Inr assms have "row = map (\<lambda>s. real s / real (sum_list ?rs)) ?rs"
        by (simp add: initialize_row_def Let_def)
      then have "sum_list row = real (sum_list ?rs) / real (sum_list ?rs)"
        by (simp only: sum_list_real_div)
      moreover from True have "real (sum_list ?rs) \<noteq> 0"
        by (simp del: sum_list_eq_0_iff)
      ultimately have "sum_list row = 1" by (metis divide_self)
      then show ?thesis ..
    next
      case z: False
      with False Inr assms show ?thesis
        by (simp add: initialize_row_def Let_def)
    qed
  qed
qed

lemma initialize_nth:
  assumes "initialize counts gold_data label_type = Inr (patient_classes, reviewed)" "i < nPatients counts"
  shows "\<exists>b. initialize_row counts gold_data label_type i = Inr (patient_classes ! i, b)"
proof -
  from assms(1) obtain rows where
    t: "traverse (initialize_row counts gold_data label_type) [0..<nPatients counts] = Inr rows"
    and pc: "patient_classes = map fst rows"
    by (auto simp: initialize_def split: sum.splits)
  from traverse_upt_nth[OF t assms(2)] pc assms(2) show ?thesis
    by (metis nth_map prod.collapse)
qed

lemma e_step_nth:
  assumes "e_step counts gold_data class_marginals error_rates label_type = Inr patient_classes"
    "i < nPatients counts"
  shows "e_step_row counts gold_data class_marginals error_rates label_type i = Inr (patient_classes ! i)"
  using traverse_upt_nth(1)[OF assms(1)[unfolded e_step_def] assms(2)] .

lemma e_step_row_normalized:
  assumes "e_step_row counts gold_data class_marginals error_rates label_type i = Inr row"
    and "\<forall>j<nClasses counts. 0 \<le> class_marginals ! j"
    and "\<forall>k<nObservers counts. \<forall>j<nClasses counts. \<forall>l<nClasses counts.
           0 \<le> error_rates ! k ! j ! l"
  shows "sum_list row = 1 \<or> row = replicate (nClasses counts) 0"
proof (cases "nClasses counts = 0")
  case True
  then show ?thesis using assms(1) by (simp add: e_step_row_def normalize_row_def)
next
  case nz: False
  then have ne: "[0..<nClasses counts] \<noteq> []" by simp
  show ?thesis
  proof (cases "is_blindspot counts gold_data label_type i")
    case (Inl e)
    then show ?thesis using assms(1) nz
      by (simp add: e_step_row_def upt_rec[of 0])
  next
    case (Inr t)
    show ?thesis
    proof (cases t)
      case True
      with Inr have bs: "is_blindspot counts gold_data label_type i = Inr True" by simp
      from assms(1) have "2 \<le> nClasses counts"
        by (simp add: e_step_row_def e_step_classes_forced[OF bs ne] split: if_splits)
      from e_step_row_forced[OF bs this] assms(1) show ?thesis
        by (auto simp: sum_list_replicate)
    next
      case False
      with Inr have bs: "is_blindspot counts gold_data label_type i = Inr False" by simp
      let ?scores = "map (estimate class_marginals error_rates counts i) [0..<nClasses counts]"
      have row: "row = normalize_row ?scores"
        using assms(1) by (simp add: e_step_row_plain[OF bs])
      have "\<And>x. x \<in> set ?scores \<Longrightarrow> 0 \<le> x"
        using spec_score_nonneg[OF assms(2,3)] by (auto simp: estimate_spec)
      from sum_normalize_nonneg[of ?scores, OF this] show ?thesis
        unfolding row by simp
    qed
  qed
qed

text \<open>
  Claim C4. Every row of the posterior that \<open>initialize\<close> returns, and every row that
  \<open>e_step\<close> returns from class marginals and error rates that are not negative, sums to 1
  or is all zero. Over the reals the sum is exactly 1; rounding is outside the model.
\<close>

theorem posterior_rows_normalized:
  "(initialize counts gold_data label_type = Inr (patient_classes, reviewed) \<and> i < nPatients counts
      \<longrightarrow> sum_list (patient_classes ! i) = 1
          \<or> patient_classes ! i = replicate (nClasses counts) 0)
   \<and> (e_step counts gold_data class_marginals error_rates label_type = Inr patient_classes'
       \<and> i < nPatients counts
       \<and> (\<forall>j<nClasses counts. 0 \<le> class_marginals ! j)
       \<and> (\<forall>k<nObservers counts. \<forall>j<nClasses counts. \<forall>l<nClasses counts.
             0 \<le> error_rates ! k ! j ! l)
      \<longrightarrow> sum_list (patient_classes' ! i) = 1
          \<or> patient_classes' ! i = replicate (nClasses counts) 0)"
proof (intro conjI impI; elim conjE)
  assume "initialize counts gold_data label_type = Inr (patient_classes, reviewed)"
    and "i < nPatients counts"
  from initialize_nth[OF this] obtain b where
    "initialize_row counts gold_data label_type i = Inr (patient_classes ! i, b)" ..
  then show "sum_list (patient_classes ! i) = 1
      \<or> patient_classes ! i = replicate (nClasses counts) 0"
    by (rule initialize_row_normalized)
next
  assume "e_step counts gold_data class_marginals error_rates label_type = Inr patient_classes'"
    and "i < nPatients counts"
    and nn: "\<forall>j<nClasses counts. 0 \<le> class_marginals ! j"
      "\<forall>k<nObservers counts. \<forall>j<nClasses counts. \<forall>l<nClasses counts.
             0 \<le> error_rates ! k ! j ! l"
  from e_step_nth[OF this(1,2)] nn
  show "sum_list (patient_classes' ! i) = 1
      \<or> patient_classes' ! i = replicate (nClasses counts) 0"
    by (rule e_step_row_normalized)
qed


theorem posterior_rows_normalized_witness:
  "initialize \<lparr>nPatients = 2, nObservers = 1, nClasses = 2, cells = [[[2, 0]], [[0, 0]]]\<rparr>
     [0, 0] (''average'', 1) = Inr ([[1, 0], [0, 0]], [])
   \<and> e_step \<lparr>nPatients = 2, nObservers = 1, nClasses = 2, cells = [[[2, 0]], [[0, 0]]]\<rparr>
       [0, 0] [1/2, 0] [[[1, 0], [0, 0]]] (''average'', 1) = Inr [[1, 0], [1, 0]]
   \<and> (sum_list ([[1, 0], [0, 0]] ! 1) = (1::real) \<or> [[1, 0], [0, 0]] ! 1 = replicate 2 (0::real))
   \<and> (sum_list ([[1, 0], [1, 0]] ! 1) = (1::real) \<or> [[1, 0], [1, 0]] ! 1 = replicate 2 (0::real))"
proof -
  let ?c = "\<lparr>nPatients = 2, nObservers = 1, nClasses = 2, cells = [[[2, 0]], [[0, 0]]]\<rparr>"
  let ?er = "[[[1, 0], [0, 0 :: real]]]"
  have h1: "initialize ?c [0, 0] (''average'', 1) = Inr ([[1, 0], [0, 0]], [])"
    by code_simp
  have h2: "1 < nPatients ?c" by simp
  have h3: "\<forall>j<nClasses ?c. 0 \<le> [1/2, 0 :: real] ! j"
    by (simp add: less_Suc_eq numeral_2_eq_2)
  have h4: "\<forall>k<nObservers ?c. \<forall>j<nClasses ?c. \<forall>l<nClasses ?c. 0 \<le> ?er ! k ! j ! l"
    by (simp add: less_Suc_eq numeral_2_eq_2)
  have h5: "e_step ?c [0, 0] [1/2, 0] ?er (''average'', 1) = Inr [[1, 0], [1, 0]]"
    by code_simp
  from posterior_rows_normalized[of ?c "[0, 0]" "(''average'', 1)" "[[1, 0], [0, 0]]" "[]" 1
      "[1/2, 0]" ?er "[[1, 0], [1, 0]]"] h1 h2 h3 h4 h5
  show ?thesis by simp
qed

section \<open>The blind-spot override\<close>

lemma traverse_total:
  "(\<And>x. x \<in> set xs \<Longrightarrow> \<exists>y. f x = Inr y) \<Longrightarrow> \<exists>ys. traverse f xs = Inr ys"
proof (induction xs)
  case Nil
  then show ?case by simp
next
  case (Cons x xs)
  then obtain y ys where "f x = Inr y" "traverse f xs = Inr ys"
    by (metis list.set_intros)
  then show ?case by simp
qed

lemma array_truth_total: "length bs \<le> 1 \<Longrightarrow> \<exists>t. array_truth bs = Inr t"
  by (cases bs rule: array_truth.cases) auto

lemma is_blindspot_total:
  assumes "2 \<le> nClasses counts" "nObservers counts \<le> 1" "p < length gold_data"
  shows "\<exists>t. is_blindspot counts gold_data label_type p = Inr t"
  using assms array_truth_total[of "map (\<lambda>k. cnt counts p k 1 > 0) [0..<nObservers counts]"]
  by (auto simp: is_blindspot_def)

lemma initialize_total:
  assumes "2 \<le> nClasses counts" "nObservers counts \<le> 1" "nPatients counts \<le> length gold_data"
  shows "\<exists>patient_classes reviewed.
           initialize counts gold_data label_type = Inr (patient_classes, reviewed)"
proof -
  have "\<exists>y. initialize_row counts gold_data label_type p = Inr y"
    if "p \<in> set [0..<nPatients counts]" for p
  proof -
    from that assms(3) have "p < length gold_data" by simp
    from is_blindspot_total[OF assms(1,2) this] obtain t where
      "is_blindspot counts gold_data label_type p = Inr t" ..
    then show ?thesis using assms(1)
      by (cases t) (auto simp: initialize_row_def blindspot_row_def Let_def)
  qed
  from traverse_total[of "[0..<nPatients counts]" "initialize_row counts gold_data label_type", OF this]
  show ?thesis by (auto simp: initialize_def)
qed

lemma e_step_total:
  assumes "2 \<le> nClasses counts" "nObservers counts \<le> 1" "nPatients counts \<le> length gold_data"
  shows "\<exists>patient_classes.
           e_step counts gold_data class_marginals error_rates label_type = Inr patient_classes"
proof -
  have "\<exists>y. e_step_row counts gold_data class_marginals error_rates label_type p = Inr y"
    if "p \<in> set [0..<nPatients counts]" for p
  proof -
    from that assms(3) have "p < length gold_data" by simp
    from is_blindspot_total[OF assms(1,2) this] obtain t where
      t: "is_blindspot counts gold_data label_type p = Inr t" ..
    show ?thesis
    proof (cases t)
      case True
      with t have "is_blindspot counts gold_data label_type p = Inr True" by simp
      from e_step_row_forced[OF this assms(1)] show ?thesis by simp
    next
      case False
      with t have "is_blindspot counts gold_data label_type p = Inr False" by simp
      from e_step_row_plain[OF this] show ?thesis by simp
    qed
  qed
  from traverse_total[of "[0..<nPatients counts]"
      "e_step_row counts gold_data class_marginals error_rates label_type", OF this]
  show ?thesis by (simp add: e_step_def)
qed

lemma array_truth_Inr:
  "array_truth bs = Inr t \<Longrightarrow> (bs = [] \<and> \<not> t) \<or> bs = [t]"
  by (cases bs rule: array_truth.cases) auto

lemma is_blindspot_applies:
  assumes "(AM_noise label_type = 0 \<and> (\<exists>k<nObservers counts. 0 < cnt counts i k 1))
           \<or> (AM_noise label_type = 2 \<and> 0 < gold_data ! i)"
    and "is_blindspot counts gold_data label_type i = Inr t"
  shows "t"
  using assms(1)
proof (elim disjE conjE exE)
  fix k assume am: "AM_noise label_type = 0" and k: "k < nObservers counts" "0 < cnt counts i k 1"
  let ?bs = "map (\<lambda>k. 0 < cnt counts i k 1) [0..<nObservers counts]"
  from assms(2) am have at: "array_truth ?bs = Inr t"
    by (simp add: is_blindspot_def split: if_splits)
  from k have mem: "True \<in> set ?bs" by (auto simp: image_iff intro!: bexI[of _ k])
  from array_truth_Inr[OF at] show t
  proof
    assume "?bs = [] \<and> \<not> t"
    with mem show t by (metis empty_iff empty_set)
  next
    assume "?bs = [t]"
    with mem show t by (metis empty_iff empty_set set_ConsD)
  qed
next
  assume "AM_noise label_type = 2" "0 < gold_data ! i"
  with assms(2) show t by (auto simp: is_blindspot_def split: if_splits)
qed

lemma initialize_row_forced:
  assumes "is_blindspot counts gold_data label_type i = Inr True"
    and "initialize_row counts gold_data label_type i = Inr (row, b)"
  shows "row = 0 # 1 # replicate (nClasses counts - 2) 0 \<and> b"
  using assms
  by (auto simp: initialize_row_def blindspot_row_def forced_row split: if_splits)

text \<open>
  With two classes, an item that has a positive count of class 1 from some observer
  when \<open>AM_noise\<close> is 0, or whose gold entry is set when \<open>AM_noise\<close> is 2, has the row
  \<open>[0, 1]\<close> in every posterior that \<open>initialize\<close> returns and in every posterior that
  \<open>e_step\<close> returns, whatever the class marginals, the error rates and the other counts;
  and with one observer both functions do return a posterior.
\<close>

lemma override_when_returned:
  assumes "nClasses counts = 2" and "i < nPatients counts"
    and "(AM_noise label_type = 0 \<and> (\<exists>k<nObservers counts. 0 < cnt counts i k 1))
         \<or> (AM_noise label_type = 2 \<and> 0 < gold_data ! i)"
  shows "(initialize counts gold_data label_type = Inr (patient_classes, reviewed)
            \<longrightarrow> patient_classes ! i = [0, 1])
       \<and> (e_step counts gold_data class_marginals error_rates label_type = Inr patient_classes'
            \<longrightarrow> patient_classes' ! i = [0, 1])
       \<and> (nObservers counts = 1 \<and> nPatients counts \<le> length gold_data
            \<longrightarrow> (\<exists>pc rb. initialize counts gold_data label_type = Inr (pc, rb))
              \<and> (\<exists>pc. e_step counts gold_data class_marginals error_rates label_type = Inr pc))"
proof (intro conjI impI)
  assume "initialize counts gold_data label_type = Inr (patient_classes, reviewed)"
  from initialize_nth[OF this assms(2)] obtain b where
    row: "initialize_row counts gold_data label_type i = Inr (patient_classes ! i, b)" ..
  then obtain t where t: "is_blindspot counts gold_data label_type i = Inr t"
    by (cases "is_blindspot counts gold_data label_type i") (simp_all add: initialize_row_def)
  with is_blindspot_applies[OF assms(3) t]
  have "is_blindspot counts gold_data label_type i = Inr True" by simp
  from initialize_row_forced[OF this row] assms(1)
  show "patient_classes ! i = [0, 1]" by simp
next
  assume "e_step counts gold_data class_marginals error_rates label_type = Inr patient_classes'"
  from e_step_nth[OF this assms(2)]
  have row: "e_step_row counts gold_data class_marginals error_rates label_type i
               = Inr (patient_classes' ! i)" .
  then obtain t where t: "is_blindspot counts gold_data label_type i = Inr t"
    using assms(1)
    by (cases "is_blindspot counts gold_data label_type i")
       (simp_all add: e_step_row_def upt_rec[of 0])
  with is_blindspot_applies[OF assms(3) t]
  have bs: "is_blindspot counts gold_data label_type i = Inr True" by simp
  from e_step_row_forced[OF bs, of class_marginals error_rates] row assms(1)
  show "patient_classes' ! i = [0, 1]" by simp
next
  assume "nObservers counts = 1 \<and> nPatients counts \<le> length gold_data"
  with assms(1) initialize_total[of counts gold_data label_type]
  show "\<exists>pc rb. initialize counts gold_data label_type = Inr (pc, rb)" by simp
next
  assume "nObservers counts = 1 \<and> nPatients counts \<le> length gold_data"
  with assms(1) e_step_total[of counts gold_data class_marginals error_rates label_type]
  show "\<exists>pc. e_step counts gold_data class_marginals error_rates label_type = Inr pc" by simp
qed

lemma override_one_observer_example:
  "initialize \<lparr>nPatients = 2, nObservers = 1, nClasses = 2, cells = [[[5, 1]], [[3, 0]]]\<rparr>
     [0, 0] (''noise0'', 0) = Inr ([[0, 1], [1, 0]], [0])
   \<and> e_step \<lparr>nPatients = 2, nObservers = 1, nClasses = 2, cells = [[[5, 1]], [[3, 0]]]\<rparr>
       [0, 0] [1/2, 1/2] [[[1, 0], [5/6, 1/6]]] (''noise0'', 0) = Inr [[0, 1], [216/341, 125/341]]
   \<and> [[0, 1], [1, 0]] ! 0 = [0, 1 :: real]
   \<and> [[0, 1], [216/341, 125/341]] ! 0 = [0, 1 :: real]"
proof -
  let ?c = "\<lparr>nPatients = 2, nObservers = 1, nClasses = 2, cells = [[[5, 1]], [[3, 0]]]\<rparr>"
  have h1: "nClasses ?c = 2" by simp
  have h2: "0 < nPatients ?c" by simp
  have h3: "(AM_noise (''noise0'', 0) = 0 \<and> (\<exists>k<nObservers ?c. 0 < cnt ?c 0 k 1))
         \<or> (AM_noise (''noise0'', 0) = 2 \<and> 0 < [0, 0::nat] ! 0)"
    by (simp add: AM_noise_def cnt_def)
  have h4: "initialize ?c [0, 0] (''noise0'', 0) = Inr ([[0, 1], [1, 0]], [0])"
    by code_simp
  have h5: "e_step ?c [0, 0] [1/2, 1/2] [[[1, 0], [5/6, 1/6]]] (''noise0'', 0)
              = Inr [[0, 1], [216/341, 125/341]]"
    by code_simp
  from override_when_returned[OF h1 h2 h3, of "[[0, 1], [1, 0]]" "[0]" "[1/2, 1/2]"
      "[[[1, 0], [5/6, 1/6]]]" "[[0, 1], [216/341, 125/341]]"] h4 h5
  show ?thesis by simp
qed
lemma override_gold_example:
  "initialize \<lparr>nPatients = 2, nObservers = 1, nClasses = 2, cells = [[[5, 1]], [[3, 1]]]\<rparr>
     [1, 0] (''noise2'', 2) = Inr ([[0, 1], [3/4, 1/4]], [0])
   \<and> e_step \<lparr>nPatients = 2, nObservers = 1, nClasses = 2, cells = [[[5, 1]], [[3, 1]]]\<rparr>
       [1, 0] [1/2, 1/2] [[[1, 0], [1/2, 1/2]]] (''noise2'', 2) = Inr [[0, 1], [0, 1]]"
  by code_simp

lemma array_truth_two: "2 \<le> length bs \<Longrightarrow> array_truth bs = Inl ValueError"
  by (cases bs rule: array_truth.cases) auto

lemma is_blindspot_two_observers:
  assumes "AM_noise label_type = 0" and "2 \<le> nObservers counts" and "2 \<le> nClasses counts"
  shows "is_blindspot counts gold_data label_type p = Inl ValueError"
  using assms by (simp add: is_blindspot_def array_truth_two)

lemma traverse_first_fails:
  "0 < n \<Longrightarrow> f 0 = Inl e \<Longrightarrow> traverse f [0..<n] = Inl e"
  by (simp add: upt_rec[of 0 n])

lemma initialize_two_observers:
  assumes "AM_noise label_type = 0" and "2 \<le> nObservers counts" and "2 \<le> nClasses counts"
    and "0 < nPatients counts"
  shows "initialize counts gold_data label_type = Inl ValueError"
proof -
  have "initialize_row counts gold_data label_type 0 = Inl ValueError"
    by (simp add: initialize_row_def is_blindspot_two_observers[OF assms(1,2,3)])
  from traverse_first_fails[of "nPatients counts" "initialize_row counts gold_data label_type",
      OF assms(4) this]
  show ?thesis by (simp add: initialize_def)
qed

lemma e_step_two_observers:
  assumes "AM_noise label_type = 0" and "2 \<le> nObservers counts" and "2 \<le> nClasses counts"
    and "0 < nPatients counts"
  shows "e_step counts gold_data class_marginals error_rates label_type = Inl ValueError"
proof -
  have "0 < nClasses counts" using assms(3) by simp
  then have "e_step_row counts gold_data class_marginals error_rates label_type 0 = Inl ValueError"
    by (simp add: e_step_row_def upt_rec[of 0 "nClasses counts"]
        is_blindspot_two_observers[OF assms(1,2,3)])
  from traverse_first_fails[of "nPatients counts"
      "e_step_row counts gold_data class_marginals error_rates label_type", OF assms(4) this]
  show ?thesis by (simp add: e_step_def)
qed

text \<open>
  Claim C2. The override is to hold for an item with a positive count of class 1 from
  any observer. With \<open>AM_noise\<close> 0 the program does so for one observer only: with two
  observers the test \<open>counts[p,:,1] > 0\<close> is an array of two truth values, whose truth
  value is a \<open>ValueError\<close>, at line 257 in \<open>initialize\<close> and at line 332 in \<open>e_step\<close>. For
  one item, labelled class 1 by the first observer and class 0 by the second, neither
  function returns a posterior, and \<open>run\<close> stops before its loop.
\<close>

theorem blindspot_override_two_observers:
  "responses_to_counts remdups
      [([1 :: int], [(1 :: int, [(1, ''f'')]), (2, [(0, ''f'')])])] [0, 1]
     = Inr ([[1]], [1, 2], [0, 1],
            \<lparr>nPatients = 1, nObservers = 2, nClasses = 2, cells = [[[0, 1], [1, 0]]]\<rparr>, [0])
   \<and> 0 < cnt \<lparr>nPatients = 1, nObservers = 2, nClasses = 2, cells = [[[0, 1], [1, 0]]]\<rparr> 0 0 1
   \<and> initialize \<lparr>nPatients = 1, nObservers = 2, nClasses = 2, cells = [[[0, 1], [1, 0]]]\<rparr>
         [0] (''noise0'', 0) = Inl ValueError
   \<and> e_step \<lparr>nPatients = 1, nObservers = 2, nClasses = 2, cells = [[[0, 1], [1, 0]]]\<rparr>
         [0] [1/2, 1/2] [[[1, 0], [1/2, 1/2]], [[1, 0], [1/2, 1/2]]] (''noise0'', 0)
       = Inl ValueError
   \<and> run remdups [([1 :: int], [(1 :: int, [(1, ''f'')]), (2, [(0, ''f'')])])] [0, 0] [0, 1]
         (''noise0'', 0) (1/100000) 100 = (0, Inl ValueError)"
proof -
  define c where
    "c = \<lparr>nPatients = 1, nObservers = 2, nClasses = 2, cells = [[[0, 1], [1, 0]]]\<rparr>"
  have r: "responses_to_counts remdups
      [([1 :: int], [(1 :: int, [(1, ''f'')]), (2, [(0, ''f'')])])] [0, 1]
     = Inr ([[1]], [1, 2], [0, 1], c, [0])"
    unfolding c_def by code_simp
  have n: "0 < cnt c 0 0 1" by (simp add: c_def cnt_def)
  have i: "initialize c [0] (''noise0'', 0) = Inl ValueError"
    unfolding c_def by code_simp
  have e: "e_step c [0] [1/2, 1/2] [[[1, 0], [1/2, 1/2]], [[1, 0], [1/2, 1/2]]] (''noise0'', 0)
             = Inl ValueError"
    unfolding c_def by code_simp
  have "run remdups [([1 :: int], [(1 :: int, [(1, ''f'')]), (2, [(0, ''f'')])])] [0, 0] [0, 1]
         (''noise0'', 0) (1/100000) 100 = (0, Inl ValueError)"
    by (simp add: run_def r i)
  with r n i e show ?thesis unfolding c_def by simp
qed


section \<open>The likelihood\<close>

lemma patient_likelihood_spec:
  "patient_likelihood cm er counts i = spec_likelihood cm er counts i"
  by (simp add: patient_likelihood_def spec_likelihood_def sum_list_upt
        estimate_spec[unfolded estimate_def])

lemma accumulated_finite:
  "\<not> nonfinite (spec_accumulated cm er counts i) \<Longrightarrow>
     spec_accumulated cm er counts i = Finite (spec_partial cm er counts (Suc i))"
  by (auto simp: nonfinite_def spec_accumulated_def np_log_def spec_partial_def split: if_splits)

lemma loop_step:
  "a < n \<Longrightarrow>
   calc_likelihood_loop counts cm er [a..<n] (spec_partial cm er counts a) =
     (if nonfinite (spec_accumulated cm er counts a)
      then Inl (SystemExit a (spec_partial cm er counts a)
                  (np_log (spec_likelihood cm er counts a)) (spec_accumulated cm er counts a))
      else calc_likelihood_loop counts cm er [Suc a..<n] (spec_partial cm er counts (Suc a)))"
  using accumulated_finite[of cm er counts a]
  by (auto simp: upt_rec[of a n] Let_def patient_likelihood_spec nonfinite_def
        spec_accumulated_def[symmetric])

lemma loop_returns:
  "(\<And>i. a \<le> i \<Longrightarrow> i < n \<Longrightarrow> \<not> nonfinite (spec_accumulated cm er counts i)) \<Longrightarrow> a \<le> n \<Longrightarrow>
   calc_likelihood_loop counts cm er [a..<n] (spec_partial cm er counts a)
     = Inr (spec_partial cm er counts n)"
proof (induction "n - a" arbitrary: a)
  case 0
  then show ?case by simp
next
  case (Suc d)
  then have "a < n" by simp
  moreover have "\<not> nonfinite (spec_accumulated cm er counts a)"
    using Suc.prems(1)[of a] \<open>a < n\<close> by simp
  moreover have "calc_likelihood_loop counts cm er [Suc a..<n] (spec_partial cm er counts (Suc a))
     = Inr (spec_partial cm er counts n)"
    using Suc.hyps(2) Suc.prems \<open>a < n\<close> by (intro Suc.hyps(1)) auto
  ultimately show ?case by (simp add: loop_step)
qed

lemma loop_exits:
  "a \<le> i \<Longrightarrow> i < n \<Longrightarrow> nonfinite (spec_accumulated cm er counts i) \<Longrightarrow>
   (\<And>i'. a \<le> i' \<Longrightarrow> i' < i \<Longrightarrow> \<not> nonfinite (spec_accumulated cm er counts i')) \<Longrightarrow>
   calc_likelihood_loop counts cm er [a..<n] (spec_partial cm er counts a)
     = Inl (SystemExit i (spec_partial cm er counts i)
              (np_log (spec_likelihood cm er counts i)) (spec_accumulated cm er counts i))"
proof (induction "i - a" arbitrary: a)
  case 0
  then have "a = i" by simp
  with 0 show ?case by (simp add: loop_step)
next
  case (Suc d)
  then have lt: "a < i" "a < n" by simp_all
  then have "\<not> nonfinite (spec_accumulated cm er counts a)"
    using Suc.prems(4)[of a] by simp
  moreover have "calc_likelihood_loop counts cm er [Suc a..<n] (spec_partial cm er counts (Suc a))
     = Inl (SystemExit i (spec_partial cm er counts i)
              (np_log (spec_likelihood cm er counts i)) (spec_accumulated cm er counts i))"
    using Suc.hyps(2) Suc.prems lt by (intro Suc.hyps(1)) auto
  ultimately show ?case using lt by (simp add: loop_step)
qed

lemma nonfinite_iff:
  "nonfinite (spec_accumulated cm er counts i) \<longleftrightarrow> spec_likelihood cm er counts i \<le> 0"
  by (auto simp: nonfinite_def spec_accumulated_def np_log_def)


text \<open>
  Claim C6. \<open>calc_likelihood\<close> accumulates, item by item, the logarithm of the sum over
  the classes of the score of the specification (no blind-spot test is made). When the
  accumulated value is finite at every item it returns the total. Otherwise it exits at
  the first item where the accumulated value is NaN or infinite, having printed the
  index of the item, the total so far, the logarithm for the item and the new value.
  Over the reals that happens exactly at an item whose likelihood is not positive.
\<close>

theorem calc_likelihood_result:
  "((\<forall>i<nPatients counts. \<not> nonfinite (spec_accumulated class_marginals error_rates counts i))
      \<longrightarrow> calc_likelihood counts class_marginals error_rates
            = Inr (spec_partial class_marginals error_rates counts (nPatients counts)))
   \<and> (\<forall>i<nPatients counts.
         nonfinite (spec_accumulated class_marginals error_rates counts i)
         \<and> (\<forall>i'<i. \<not> nonfinite (spec_accumulated class_marginals error_rates counts i'))
         \<longrightarrow> calc_likelihood counts class_marginals error_rates
               = Inl (SystemExit i (spec_partial class_marginals error_rates counts i)
                        (np_log (spec_likelihood class_marginals error_rates counts i))
                        (spec_accumulated class_marginals error_rates counts i)))
   \<and> (\<forall>i. nonfinite (spec_accumulated class_marginals error_rates counts i)
         \<longleftrightarrow> spec_likelihood class_marginals error_rates counts i \<le> 0)"
proof -
  have c: "calc_likelihood counts class_marginals error_rates =
      calc_likelihood_loop counts class_marginals error_rates [0..<nPatients counts]
        (spec_partial class_marginals error_rates counts 0)"
    by (simp add: calc_likelihood_def spec_partial_def)
  show ?thesis
  proof (intro conjI allI impI)
    assume "\<forall>i<nPatients counts.
              \<not> nonfinite (spec_accumulated class_marginals error_rates counts i)"
    then show "calc_likelihood counts class_marginals error_rates
            = Inr (spec_partial class_marginals error_rates counts (nPatients counts))"
      unfolding c by (intro loop_returns) auto
  next
    fix i
    assume "i < nPatients counts"
      and "nonfinite (spec_accumulated class_marginals error_rates counts i)
         \<and> (\<forall>i'<i. \<not> nonfinite (spec_accumulated class_marginals error_rates counts i'))"
    then show "calc_likelihood counts class_marginals error_rates
               = Inl (SystemExit i (spec_partial class_marginals error_rates counts i)
                        (np_log (spec_likelihood class_marginals error_rates counts i))
                        (spec_accumulated class_marginals error_rates counts i))"
      unfolding c by (intro loop_exits) auto
  next
    fix i
    show "nonfinite (spec_accumulated class_marginals error_rates counts i)
         \<longleftrightarrow> spec_likelihood class_marginals error_rates counts i \<le> 0"
      by (rule nonfinite_iff)
  qed
qed

theorem calc_likelihood_result_witness:
  "calc_likelihood \<lparr>nPatients = 1, nObservers = 1, nClasses = 2, cells = [[[2, 0]]]\<rparr>
      [1, 0] [[[1, 0], [0, 0]]] = Inr 0
   \<and> calc_likelihood \<lparr>nPatients = 2, nObservers = 1, nClasses = 2, cells = [[[2, 0]], [[0, 1]]]\<rparr>
      [1, 0] [[[1, 0], [0, 0]]] = Inl (SystemExit 1 0 MinusInf MinusInf)"
proof -
  define a where "a = \<lparr>nPatients = 1, nObservers = 1, nClasses = 2, cells = [[[2, 0]]]\<rparr>"
  define b where
    "b = \<lparr>nPatients = 2, nObservers = 1, nClasses = 2, cells = [[[2, 0]], [[0, 1]]]\<rparr>"
  let ?cm = "[1, 0 :: real]"
  let ?er = "[[[1, 0], [0, 0 :: real]]]"
  have la: "spec_likelihood ?cm ?er a 0 = 1"
    by (simp add: a_def spec_likelihood_def spec_score_def cnt_def numeral_2_eq_2)
  have lb0: "spec_likelihood ?cm ?er b 0 = 1"
    by (simp add: b_def spec_likelihood_def spec_score_def cnt_def numeral_2_eq_2)
  have lb1: "spec_likelihood ?cm ?er b (Suc 0) = 0"
    by (simp add: b_def spec_likelihood_def spec_score_def cnt_def numeral_2_eq_2)
  have na: "nPatients a = 1" and nb: "nPatients b = 2" by (simp_all add: a_def b_def)
  have ha: "\<forall>i<nPatients a. \<not> nonfinite (spec_accumulated ?cm ?er a i)"
    by (simp add: na nonfinite_def spec_accumulated_def np_log_def la)
  have hb: "1 < nPatients b \<and> nonfinite (spec_accumulated ?cm ?er b 1)
       \<and> (\<forall>i'<1. \<not> nonfinite (spec_accumulated ?cm ?er b i'))"
    by (simp add: nb nonfinite_def spec_accumulated_def np_log_def lb0 lb1)
  have ra: "calc_likelihood a ?cm ?er = Inr (spec_partial ?cm ?er a (nPatients a))"
    using calc_likelihood_result[of a ?cm ?er] ha by blast
  have rb: "calc_likelihood b ?cm ?er
      = Inl (SystemExit 1 (spec_partial ?cm ?er b 1) (np_log (spec_likelihood ?cm ?er b 1))
               (spec_accumulated ?cm ?er b 1))"
    using calc_likelihood_result[of b ?cm ?er] hb by blast
  have "calc_likelihood a ?cm ?er = Inr 0"
    unfolding ra by (simp add: na spec_partial_def la)
  moreover have "calc_likelihood b ?cm ?er = Inl (SystemExit 1 0 MinusInf MinusInf)"
    unfolding rb by (simp add: spec_partial_def spec_accumulated_def np_log_def lb0 lb1)
  ultimately show ?thesis unfolding a_def b_def by simp
qed

section \<open>Zero counts\<close>

lemma class_likelihood_positive_counts:
  "class_likelihood error_rates counts i j =
     (\<Prod>k<nObservers counts. \<Prod>l\<in>{l. l < nClasses counts \<and> cnt counts i k l \<noteq> 0}.
        (error_rates ! k ! j ! l) ^ cnt counts i k l)"
proof -
  have "(\<Prod>l<nClasses counts. (error_rates ! k ! j ! l) ^ cnt counts i k l) =
        (\<Prod>l\<in>{l. l < nClasses counts \<and> cnt counts i k l \<noteq> 0}.
           (error_rates ! k ! j ! l) ^ cnt counts i k l)" for k
    by (rule prod.mono_neutral_right) auto
  then show ?thesis by (simp add: class_likelihood_prod)
qed

text \<open>
  Claim C7. A zero count gives the factor 1 whatever the error rate, 0 included: the
  score of the E-step and the likelihood of an item are the products over the cells
  with a positive count alone, so a cell an observer never filled changes neither.
\<close>

theorem zero_power_convention:
  "np_power x 0 = 1
   \<and> estimate class_marginals error_rates counts i j =
       class_marginals ! j *
         (\<Prod>k<nObservers counts. \<Prod>l\<in>{l. l < nClasses counts \<and> cnt counts i k l \<noteq> 0}.
            (error_rates ! k ! j ! l) ^ cnt counts i k l)
   \<and> patient_likelihood class_marginals error_rates counts i =
       (\<Sum>j<nClasses counts. class_marginals ! j *
         (\<Prod>k<nObservers counts. \<Prod>l\<in>{l. l < nClasses counts \<and> cnt counts i k l \<noteq> 0}.
            (error_rates ! k ! j ! l) ^ cnt counts i k l))"
  by (simp add: np_power_def estimate_def patient_likelihood_def sum_list_upt
        class_likelihood_positive_counts)

theorem zero_power_convention_witness:
  "np_power 0 0 = 1
   \<and> estimate [1/2, 1/2] [[[1, 0], [0, 1]]]
       \<lparr>nPatients = 1, nObservers = 1, nClasses = 2, cells = [[[3, 0]]]\<rparr> 0 0 = 1/2
   \<and> patient_likelihood [1/2, 1/2] [[[1, 0], [0, 1]]]
       \<lparr>nPatients = 1, nObservers = 1, nClasses = 2, cells = [[[3, 0]]]\<rparr> 0 = 1/2"
proof -
  define c where "c = \<lparr>nPatients = 1, nObservers = 1, nClasses = 2, cells = [[[3, 0]]]\<rparr>"
  let ?cm = "[1/2, 1/2 :: real]"
  let ?er = "[[[1, 0], [0, 1 :: real]]]"
  let ?P = "\<lambda>j. \<Prod>k<nObservers c. \<Prod>l\<in>{l. l < nClasses c \<and> cnt c 0 k l \<noteq> 0}.
                  (?er ! k ! j ! l) ^ cnt c 0 k l"
  have p0: "?P 0 = 1"
    unfolding class_likelihood_positive_counts[symmetric]
    by (simp add: class_likelihood_def c_def np_power_def cnt_def numeral_2_eq_2)
  have p1: "?P 1 = 0"
    unfolding class_likelihood_positive_counts[symmetric]
    by (simp add: class_likelihood_def c_def np_power_def cnt_def numeral_2_eq_2)
  have sum2: "(\<Sum>j<nClasses c. f j) = f 0 + f 1" for f :: "nat \<Rightarrow> real"
    by (simp add: c_def numeral_2_eq_2)
  from zero_power_convention[of 0 ?cm ?er c 0 0]
  have z: "np_power 0 0 = 1"
    and e: "estimate ?cm ?er c 0 0 = ?cm ! 0 * ?P 0"
    and l: "patient_likelihood ?cm ?er c 0 = (\<Sum>j<nClasses c. ?cm ! j * ?P j)"
    by blast+
  have "estimate ?cm ?er c 0 0 = 1/2"
    unfolding e p0 by simp
  moreover have "patient_likelihood ?cm ?er c 0 = 1/2"
    unfolding l sum2 p0 p1 by simp
  ultimately show ?thesis using z unfolding c_def by simp
qed


section \<open>The M-step\<close>

lemma soft_count_spec: "soft_count counts pc k j l = spec_soft_count counts pc k j l"
  by (simp add: soft_count_def spec_soft_count_def sum_list_upt)

lemma column_sum_spec: "column_sum pc n j = (\<Sum>i<n. pc ! i ! j)"
  by (simp add: column_sum_def sum_list_upt)

lemma m_step_Inr:
  assumes "m_step counts review_counts gold_data pc label_type iteration = Inr (cm, er)"
  shows "0 < nClasses counts \<Longrightarrow> 0 < nPatients counts"
    and "cm = map (\<lambda>j. (\<Sum>i<nPatients counts. pc ! i ! j) / real (nPatients counts))
                [0..<nClasses counts]"
    and "traverse (\<lambda>k. traverse (m_step_row counts pc label_type k) [0..<nClasses counts])
           [0..<nObservers counts] = Inr er"
  using assms
  by (auto simp: m_step_def Let_def column_sum_spec split: sum.splits if_splits)

lemma m_step_row_nth:
  assumes "m_step counts review_counts gold_data pc label_type iteration = Inr (cm, er)"
    and "k < nObservers counts" "j < nClasses counts"
  shows "m_step_row counts pc label_type k j = Inr (er ! k ! j)"
proof -
  from traverse_upt_nth(1)[OF m_step_Inr(3)[OF assms(1)] assms(2)]
  have "traverse (m_step_row counts pc label_type k) [0..<nClasses counts] = Inr (er ! k)" .
  from traverse_upt_nth(1)[OF this assms(3)] show ?thesis .
qed

lemma identity_row:
  "2 \<le> n \<Longrightarrow> (replicate n (0::real))[0 := 1, Suc 0 := 0] = 1 # 0 # replicate (n - 2) 0"
  by (cases n; simp) (rename_tac m, case_tac m; simp)

lemma spec_soft_count_nonneg:
  assumes "\<forall>i<nPatients counts. \<forall>j<nClasses counts. 0 \<le> pc ! i ! j" "j < nClasses counts"
  shows "0 \<le> spec_soft_count counts pc k j l"
  unfolding spec_soft_count_def using assms by (intro sum_nonneg mult_nonneg_nonneg) auto

text \<open>
  Claim C3. When \<open>m_step\<close> returns, on a posterior without negative entries: the class
  marginals are the column means of the posterior over the items; the row of observer
  \<open>k\<close> and true class \<open>j\<close> is \<open>[1, 0]\<close> (followed by zeros when there are more than two
  classes) if \<open>AM_noise\<close> is 0 and \<open>j\<close> is 0, whatever the data; and otherwise it is the
  row of soft counts divided by its sum, or all zero when that sum is zero.
\<close>

theorem m_step_postcondition:
  assumes "m_step counts review_counts gold_data patient_classes label_type iteration
             = Inr (class_marginals, error_rates)"
    and "\<forall>i<nPatients counts. \<forall>j<nClasses counts. 0 \<le> patient_classes ! i ! j"
    and "k < nObservers counts" and "j < nClasses counts"
  shows "0 < nPatients counts
       \<and> class_marginals =
           map (\<lambda>j. (\<Sum>i<nPatients counts. patient_classes ! i ! j) / real (nPatients counts))
             [0..<nClasses counts]
       \<and> (AM_noise label_type = 0 \<and> j = 0
            \<longrightarrow> error_rates ! k ! j = 1 # 0 # replicate (nClasses counts - 2) 0)
       \<and> (\<not> (AM_noise label_type = 0 \<and> j = 0)
            \<longrightarrow> error_rates ! k ! j =
                (if (\<Sum>l<nClasses counts. spec_soft_count counts patient_classes k j l) = 0
                 then replicate (nClasses counts) 0
                 else map (\<lambda>l. spec_soft_count counts patient_classes k j l /
                                 (\<Sum>l<nClasses counts. spec_soft_count counts patient_classes k j l))
                        [0..<nClasses counts]))"
proof (intro conjI impI)
  show "0 < nPatients counts" using m_step_Inr(1)[OF assms(1)] assms(4) by simp
  show "class_marginals =
           map (\<lambda>j. (\<Sum>i<nPatients counts. patient_classes ! i ! j) / real (nPatients counts))
             [0..<nClasses counts]"
    by (rule m_step_Inr(2)[OF assms(1)])
  note row = m_step_row_nth[OF assms(1,3,4)]
  {
    assume "AM_noise label_type = 0 \<and> j = 0"
    with row show "error_rates ! k ! j = 1 # 0 # replicate (nClasses counts - 2) 0"
      by (auto simp: m_step_row_def identity_row split: if_splits)
  }
  {
    assume "\<not> (AM_noise label_type = 0 \<and> j = 0)"
    let ?row = "map (spec_soft_count counts patient_classes k j) [0..<nClasses counts]"
    from row \<open>\<not> (AM_noise label_type = 0 \<and> j = 0)\<close>
    have r: "error_rates ! k ! j = normalize_row ?row"
      by (auto simp: m_step_row_def soft_count_spec[abs_def] split: if_splits)
    have nonneg: "\<And>x. x \<in> set ?row \<Longrightarrow> 0 \<le> x"
      using spec_soft_count_nonneg[OF assms(2,4)] by auto
    have n: "normalize_row ?row =
             (if sum_list ?row = 0 then replicate (length ?row) 0
              else map (\<lambda>x. x / sum_list ?row) ?row)"
      by (rule normalize_nonneg) (rule nonneg)
    have s: "sum_list ?row = (\<Sum>l<nClasses counts. spec_soft_count counts patient_classes k j l)"
      by (simp add: sum_list_upt)
    show "error_rates ! k ! j =
                (if (\<Sum>l<nClasses counts. spec_soft_count counts patient_classes k j l) = 0
                 then replicate (nClasses counts) 0
                 else map (\<lambda>l. spec_soft_count counts patient_classes k j l /
                                 (\<Sum>l<nClasses counts. spec_soft_count counts patient_classes k j l))
                        [0..<nClasses counts])"
      unfolding r n s by (simp add: comp_def)
  }
qed

theorem m_step_postcondition_witness:
  "m_step \<lparr>nPatients = 2, nObservers = 1, nClasses = 2, cells = [[[2, 0]], [[1, 1]]]\<rparr>
     [0, 0] [0, 0] [[1, 0], [1/2, 1/2]] (''noise0'', 0) 1
     = Inr ([3/4, 1/4], [[[1, 0], [1/2, 1/2]]])
   \<and> [[[1, 0], [1/2, 1/2]]] ! 0 ! 0 = [1, 0 :: real]
   \<and> [[[1, 0], [1/2, 1/2]]] ! 0 ! 1 =
       map (\<lambda>l. spec_soft_count
                   \<lparr>nPatients = 2, nObservers = 1, nClasses = 2, cells = [[[2, 0]], [[1, 1]]]\<rparr>
                   [[1, 0], [1/2, 1/2]] 0 1 l / 1) [0..<2]"
proof -
  define c where
    "c = \<lparr>nPatients = 2, nObservers = 1, nClasses = 2, cells = [[[2, 0]], [[1, 1]]]\<rparr>"
  let ?pc = "[[1, 0], [1/2, 1/2 :: real]]"
  let ?er = "[[[1, 0], [1/2, 1/2 :: real]]]"
  have h1: "m_step c [0, 0] [0, 0] ?pc (''noise0'', 0) 1 = Inr ([3/4, 1/4], ?er)"
    unfolding c_def by code_simp
  have h2: "\<forall>i<nPatients c. \<forall>j<nClasses c. 0 \<le> ?pc ! i ! j"
    by (simp add: c_def less_Suc_eq numeral_2_eq_2)
  have h3: "0 < nObservers c" "0 < nClasses c" "1 < nClasses c" by (simp_all add: c_def)
  have am: "AM_noise (''noise0'', 0) = 0" by (simp add: AM_noise_def)
  have n: "nClasses c = 2" by (simp add: c_def)
  have s: "(\<Sum>l<nClasses c. spec_soft_count c ?pc 0 1 l) = 1"
    by (simp add: c_def spec_soft_count_def cnt_def numeral_2_eq_2)
  from m_step_postcondition[OF h1 h2 h3(1) h3(2)] am
  have a: "?er ! 0 ! 0 = 1 # 0 # replicate (nClasses c - 2) 0" by blast
  from m_step_postcondition[OF h1 h2 h3(1) h3(3)]
  have b: "?er ! 0 ! 1 = map (\<lambda>l. spec_soft_count c ?pc 0 1 l / 1) [0..<nClasses c]"
    unfolding s by simp
  from a b h1 show ?thesis unfolding n unfolding c_def by simp
qed

section \<open>The sum of the class marginals\<close>

lemma sum_list_nth_upto: "length row = n \<Longrightarrow> sum_list row = (\<Sum>j<n. (row ! j :: real))"
  by (auto simp: sum_list_sum_nth atLeast0LessThan)

lemma class_marginals_total:
  assumes "m_step counts review_counts gold_data pc label_type iteration = Inr (cm, er)"
    and "\<forall>i<nPatients counts. length (pc ! i) = nClasses counts"
  shows "sum_list cm = (\<Sum>i<nPatients counts. sum_list (pc ! i)) / real (nPatients counts)"
proof -
  have "sum_list cm
      = (\<Sum>j<nClasses counts. (\<Sum>i<nPatients counts. pc ! i ! j) / real (nPatients counts))"
    unfolding m_step_Inr(2)[OF assms(1)] by (simp add: sum_list_upt)
  also have "\<dots> = (\<Sum>j<nClasses counts. \<Sum>i<nPatients counts. pc ! i ! j) / real (nPatients counts)"
    by (simp add: sum_divide_distrib)
  also have "(\<Sum>j<nClasses counts. \<Sum>i<nPatients counts. pc ! i ! j)
      = (\<Sum>i<nPatients counts. \<Sum>j<nClasses counts. pc ! i ! j)"
    by (rule sum.swap)
  also have "\<dots> = (\<Sum>i<nPatients counts. sum_list (pc ! i))"
    using assms(2) by (intro sum.cong refl) (simp add: sum_list_nth_upto)
  finally show ?thesis .
qed

text \<open>
  Claim C5, as the code has it. With at least one item, the class marginals \<open>m_step\<close>
  returns sum to the mean of the row sums of the posterior, so to 1 when every row of
  the posterior sums to 1.
  An item with no observation has an all-zero row after \<open>initialize\<close>, and lowers the sum
  by one part in \<open>nPatients\<close>: with one observed and one unobserved item the sum is 1/2.
\<close>

theorem class_marginals_sum:
  assumes "m_step counts review_counts gold_data patient_classes label_type iteration
             = Inr (class_marginals, error_rates)"
    and "\<forall>i<nPatients counts. length (patient_classes ! i) = nClasses counts"
    and "0 < nPatients counts"
  shows "sum_list class_marginals
           = (\<Sum>i<nPatients counts. sum_list (patient_classes ! i)) / real (nPatients counts)
       \<and> ((\<forall>i<nPatients counts. sum_list (patient_classes ! i) = 1)
            \<longrightarrow> sum_list class_marginals = 1)"
proof -
  note t = class_marginals_total[OF assms(1,2)]
  from assms(3) show ?thesis unfolding t by simp
qed


theorem class_marginals_sum_witness:
  "m_step \<lparr>nPatients = 2, nObservers = 1, nClasses = 2, cells = [[[2, 0]], [[1, 1]]]\<rparr>
     [0, 0] [0, 0] [[1, 0], [1/2, 1/2]] (''average'', 1) 1
     = Inr ([3/4, 1/4], [[[5/6, 1/6], [1/2, 1/2]]])
   \<and> sum_list [3/4, 1/4 :: real] = 1"
proof -
  define c where
    "c = \<lparr>nPatients = 2, nObservers = 1, nClasses = 2, cells = [[[2, 0]], [[1, 1]]]\<rparr>"
  let ?pc = "[[1, 0], [1/2, 1/2 :: real]]"
  have h1: "m_step c [0, 0] [0, 0] ?pc (''average'', 1) 1
              = Inr ([3/4, 1/4], [[[5/6, 1/6], [1/2, 1/2]]])"
    unfolding c_def by code_simp
  have h2: "\<forall>i<nPatients c. length (?pc ! i) = nClasses c"
    by (simp add: c_def less_Suc_eq numeral_2_eq_2)
  have h3: "\<forall>i<nPatients c. sum_list (?pc ! i) = 1"
    by (simp add: c_def less_Suc_eq numeral_2_eq_2)
  have h4: "0 < nPatients c" by (simp add: c_def)
  from class_marginals_sum[OF h1 h2 h4] h3 have "sum_list [3/4, 1/4 :: real] = 1" by blast
  with h1 show ?thesis unfolding c_def by simp
qed

text \<open>
  Claim C5 as stated fails: two items, the second without observations, give class
  marginals \<open>[1/2, 0]\<close> at the first M-step.
\<close>

theorem class_marginals_sum_counterexample:
  "responses_to_counts remdups
      [([1::int], [(1::int, [(0, ''f'')])]), ([2], [(1, [])])] [0, 1]
     = Inr ([[1], [2]], [1], [0, 1],
            \<lparr>nPatients = 2, nObservers = 1, nClasses = 2, cells = [[[1, 0]], [[0, 0]]]\<rparr>,
            [0, 0])
   \<and> initialize \<lparr>nPatients = 2, nObservers = 1, nClasses = 2, cells = [[[1, 0]], [[0, 0]]]\<rparr>
       [0, 0] (''average'', 1) = Inr ([[1, 0], [0, 0]], [])
   \<and> m_step \<lparr>nPatients = 2, nObservers = 1, nClasses = 2, cells = [[[1, 0]], [[0, 0]]]\<rparr>
       [0, 0] [0, 0] [[1, 0], [0, 0]] (''average'', 1) 1
     = Inr ([1/2, 0], [[[1, 0], [0, 0]]])
   \<and> sum_list [1/2, 0 :: real] \<noteq> 1"
  by code_simp


section \<open>The loop of run\<close>

text \<open>
  The number of turns of the loop is the value of \<open>iteration\<close> when it is left. From
  \<open>iteration\<close> and \<open>old\<close> the loop runs to at most \<open>max_iter + 1\<close>, or one turn more
  than now (two when \<open>old\<close> is \<open>None\<close>, the first turn making no test), and a loop that is
  left by its test has made those turns.
\<close>

lemma traverse_Inl: "traverse f xs = Inl e \<Longrightarrow> \<exists>x \<in> set xs. f x = Inl e"
  by (induction xs) (auto split: sum.splits)

lemma is_blindspot_Inl:
  "is_blindspot counts gold_data label_type p = Inl e \<Longrightarrow> e = ValueError \<or> e = IndexError"
proof -
  have "array_truth bs = Inl e \<Longrightarrow> e = ValueError" for bs
    by (cases bs rule: array_truth.cases) auto
  then show "is_blindspot counts gold_data label_type p = Inl e \<Longrightarrow> e = ValueError \<or> e = IndexError"
    by (auto simp: is_blindspot_def split: if_splits)
qed

lemma e_step_classes_Inl:
  "e_step_classes counts gold_data cm er label_type i js row = Inl e
     \<Longrightarrow> e = ValueError \<or> e = IndexError"
proof (induction js arbitrary: row)
  case Nil
  then show ?case by simp
next
  case (Cons j js)
  then show ?case
    by (auto simp: blindspot_row_def dest: is_blindspot_Inl split: sum.splits bool.splits if_splits)
qed

lemma e_step_not_nan:
  assumes "e_step counts gold_data cm er label_type = Inl e"
  shows "e \<noteq> NotANumber"
proof -
  from traverse_Inl[OF assms[unfolded e_step_def]] obtain i where
    "e_step_row counts gold_data cm er label_type i = Inl e" by blast
  then have "e_step_classes counts gold_data cm er label_type i [0..<nClasses counts]
               (replicate (nClasses counts) 0) = Inl e"
    by (simp add: e_step_row_def split: sum.splits)
  from e_step_classes_Inl[OF this] show ?thesis by auto
qed

lemma calc_likelihood_loop_Inl:
  "calc_likelihood_loop counts cm er is log_L = Inl e \<Longrightarrow> e \<noteq> NotANumber"
  by (induction "is" arbitrary: log_L) (auto simp: Let_def split: if_splits npfloat.splits)

lemma calc_likelihood_not_nan:
  "calc_likelihood counts cm er = Inl e \<Longrightarrow> e \<noteq> NotANumber"
  unfolding calc_likelihood_def by (rule calc_likelihood_loop_Inl)

lemma em_loop_iterations:
  "fst (em_loop counts review_counts gold_data label_type tol max_iter iteration old pc)
     \<le> max (iteration + (if old = None then 2 else 1)) (max_iter + 1)
   \<and> (returned (snd (em_loop counts review_counts gold_data label_type tol max_iter iteration
                       old pc))
          \<longrightarrow> iteration + (if old = None then 2 else 1)
              \<le> fst (em_loop counts review_counts gold_data label_type tol max_iter iteration
                       old pc))"
proof (induction counts review_counts gold_data label_type tol max_iter iteration old pc
    rule: em_loop.induct)
  case (1 counts review_counts gold_data label_type tol max_iter iteration old pc)
  let ?loop = "em_loop counts review_counts gold_data label_type tol max_iter"
  show ?case
  proof (cases "m_step counts review_counts gold_data pc label_type (iteration + 1)")
    case (Inl e)
    show ?thesis
    proof (cases "e = NotANumber")
      case False
      with Inl have "?loop iteration old pc = (iteration + 1, Inl e)"
        by (subst em_loop.simps) (cases e; simp)
      then show ?thesis using False by (auto simp: returned_def)
    next
      case nan: True
      show ?thesis
      proof (cases "old \<noteq> None \<and> iteration + 1 > max_iter")
        case True
        with Inl nan have "?loop iteration old pc = (iteration + 1, Inl NotANumber)"
          by (subst em_loop.simps) simp
        then show ?thesis using True by auto
      next
        case False
        with Inl nan have step: "?loop iteration old pc = ?loop (iteration + 1) (Some ([], [])) []"
          by (subst em_loop.simps) auto
        from "1.IH"(1)[OF Inl nan False] False show ?thesis
          unfolding step by auto
      qed
    qed
  next
    case m: (Inr p)
    obtain cm er where p: "p = (cm, er)" by (cases p)
    note m = m[unfolded p]
    show ?thesis
    proof (cases "e_step counts gold_data cm er label_type")
      case (Inl e)
      with m have "?loop iteration old pc = (iteration + 1, Inl e)"
        by (subst em_loop.simps) simp
      moreover have "e \<noteq> NotANumber"
        using Inl by (rule e_step_not_nan)
      ultimately show ?thesis by (auto simp: returned_def)
    next
      case e: (Inr pc')
      show ?thesis
      proof (cases "calc_likelihood counts cm er")
        case (Inl x)
        with m e have "?loop iteration old pc = (iteration + 1, Inl x)"
          by (subst em_loop.simps) simp
        moreover have "x \<noteq> NotANumber"
          using Inl by (rule calc_likelihood_not_nan)
        ultimately show ?thesis by (auto simp: returned_def)
      next
        case l: (Inr log_L)
        show ?thesis
        proof (cases old)
          case None
          have step: "?loop iteration old pc = ?loop (iteration + 1) (Some (cm, er)) pc'"
            by (subst em_loop.simps) (simp add: m e l None)
          from "1.IH"(2)[OF m refl e l None] show ?thesis
            unfolding step using None by auto
        next
          case (Some q)
          obtain ocm oer where q: "q = (ocm, oer)" by (cases q)
          note old = Some[unfolded q]
          show ?thesis
          proof (cases "(abs_diff1 cm ocm < tol \<and> abs_diff3 er oer < tol)
                          \<or> iteration + 1 > max_iter")
            case True
            have "?loop iteration old pc = (iteration + 1, Inr (pc', cm, er))"
              by (subst em_loop.simps) (use True in \<open>auto simp: m e l old\<close>)
            then show ?thesis using old by simp
          next
            case False
            have step: "?loop iteration old pc = ?loop (iteration + 1) (Some (cm, er)) pc'"
              by (subst em_loop.simps) (use False in \<open>auto simp: m e l old\<close>)
            from "1.IH"(3)[OF m refl e l old refl False] False show ?thesis
              unfolding step using old by auto
          qed
        qed
      qed
    qed
  qed
qed

lemma sample_run:
  assumes "0 < tol"
  shows "run remdups [([1::int], [(1::int, [(0, ''f''), (0, ''f'')])])] [0, 0] [0, 1]
           (''average'', 1) tol max_iter
         = (2, Inr ([[1, 0]], [1, 0], [[[1, 0], [0, 0]]]))"
proof -
  define c where "c = \<lparr>nPatients = 1, nObservers = 1, nClasses = 2, cells = [[[2, 0]]]\<rparr>"
  let ?lt = "(''average'', 1 :: int)"
  let ?cm = "[1, 0 :: real]"
  let ?er = "[[[1, 0], [0, 0 :: real]]]"
  let ?pc = "[[1, 0 :: real]]"
  have r: "responses_to_counts remdups [([1::int], [(1::int, [(0, ''f''), (0, ''f'')])])] [0, 1]
             = Inr ([[1]], [1], [0, 1], c, [0])"
    unfolding c_def by code_simp
  have i: "initialize c [0] ?lt = Inr (?pc, [])"
    unfolding c_def by code_simp
  have m: "m_step c [0, 0] [0] ?pc ?lt n = Inr (?cm, ?er)" for n
    unfolding c_def by (simp add: m_step_def m_step_row_def AM_noise_def column_sum_def
        soft_count_def cnt_def normalize_row_def numeral_2_eq_2)
  have e: "e_step c [0] ?cm ?er ?lt = Inr ?pc"
    unfolding c_def by code_simp
  have l: "calc_likelihood c ?cm ?er = Inr 0"
    unfolding c_def
    by (simp add: calc_likelihood_def patient_likelihood_def class_likelihood_def np_power_def
        cnt_def np_log_def numeral_2_eq_2)
  have d: "abs_diff1 ?cm ?cm = 0" "abs_diff3 ?er ?er = 0"
    by (simp_all add: abs_diff1_def abs_diff3_def)
  have s2: "em_loop c [0, 0] [0] ?lt tol max_iter 1 (Some (?cm, ?er)) ?pc
              = (2, Inr (?pc, ?cm, ?er))"
    by (subst em_loop.simps) (simp add: m e l d assms)
  have s1: "em_loop c [0, 0] [0] ?lt tol max_iter 0 None ?pc
              = em_loop c [0, 0] [0] ?lt tol max_iter 1 (Some (?cm, ?er)) ?pc"
    by (subst em_loop.simps) (simp add: m e l)
  show ?thesis
    by (simp add: run_def r i s1 s2)
qed

text \<open>
  On an empty data set, with some class, the loop makes exactly \<open>max 2 (max_iter + 1)\<close>
  turns.
\<close>

lemma nan_loop:
  assumes "\<And>pc n. m_step counts review_counts gold_data pc label_type n = Inl NotANumber"
  shows "em_loop counts review_counts gold_data label_type tol max_iter iteration old pc
           = (max (iteration + (if old = None then 2 else 1)) (max_iter + 1), Inl NotANumber)"
  using assms
proof (induction counts review_counts gold_data label_type tol max_iter iteration old pc
    rule: em_loop.induct)
  case (1 counts review_counts gold_data label_type tol max_iter iteration old pc)
  note m = "1.prems"
  let ?loop = "em_loop counts review_counts gold_data label_type tol max_iter"
  show ?case
  proof (cases "old \<noteq> None \<and> iteration + 1 > max_iter")
    case True
    then have "?loop iteration old pc = (iteration + 1, Inl NotANumber)"
      by (subst em_loop.simps) (simp add: m)
    then show ?thesis using True by auto
  next
    case False
    then have step: "?loop iteration old pc = ?loop (iteration + 1) (Some ([], [])) []"
      by (subst em_loop.simps) (auto simp: m)
    from "1.IH"(1)[OF m refl False m] False show ?thesis
      unfolding step by auto
  qed
qed

lemma empty_run:
  assumes "set_listing list_of_set" and "classes \<noteq> []"
  shows "run list_of_set [] review_counts classes label_type tol max_iter
           = (max 2 (max_iter + 1), Inl NotANumber)"
proof -
  have e: "list_of_set [] = []"
    using assms(1)[unfolded set_listing_def, rule_format, of "[]"] by simp
  let ?c = "\<lparr>nPatients = 0, nObservers = 0, nClasses = length classes, cells = []\<rparr>"
  have r: "responses_to_counts list_of_set [] classes = Inr ([], [], classes, ?c, [])"
    by (simp add: responses_to_counts_def observer_keys_def e zeros3_def)
  have i: "initialize ?c [] label_type = Inr ([], [])"
    by (simp add: initialize_def)
  have m: "m_step ?c review_counts [] pc label_type n = Inl NotANumber" for pc n
    using assms(2) by (simp add: m_step_def)
  show ?thesis
    by (simp add: run_def r i nan_loop[of ?c review_counts "[]" label_type, OF m])
qed

text \<open>
  Claim C8, as the code has it. The loop of \<open>run\<close> always ends (\<open>em_loop\<close> is a total
  function), and its body is executed at most \<open>max 2 (max_iter + 1)\<close> times: at most
  \<open>max_iter + 1\<close> times when \<open>max_iter\<close> is at least 1, and at most twice otherwise, since
  the first turn tests neither the differences nor the iteration count. The empty data
  set reaches the bound (\<open>empty_run\<close>).
\<close>

theorem run_iterations_bounded:
  "fst (run list_of_set responses review_counts classes label_type tol max_iter)
     \<le> max 2 (max_iter + 1)"
proof (cases "responses_to_counts list_of_set responses classes")
  case (Inl e)
  then show ?thesis by (simp add: run_def)
next
  case (Inr t)
  obtain patients observers classes' counts gold_data where
    t: "t = (patients, observers, classes', counts, gold_data)" by (cases t)
  show ?thesis
  proof (cases "initialize counts gold_data label_type")
    case (Inl e)
    with Inr t show ?thesis by (simp add: run_def)
  next
    case i: (Inr q)
    obtain pc rb where q: "q = (pc, rb)" by (cases q)
    from em_loop_iterations[of counts review_counts gold_data label_type tol max_iter 0 None pc]
    show ?thesis using Inr t i q by (simp add: run_def)
  qed
qed

theorem run_iterations_bounded_witness:
  "fst (run remdups [([1::int], [(1::int, [(0, ''f''), (0, ''f'')])])] [0, 0] [0, 1]
          (''average'', 1) (1/100000) 100) \<le> max 2 (100 + 1)"
  by (rule run_iterations_bounded)

text \<open>
  Claim C8 as stated fails: with \<open>max_iter = 0\<close> the body is executed twice, more than
  \<open>max_iter + 1\<close>.
\<close>

theorem run_iterations_counterexample:
  "fst (run remdups [([1::int], [(1::int, [(0, ''f''), (0, ''f'')])])] [0, 0] [0, 1]
          (''average'', 1) (1/100000) 0) = 2
   \<and> \<not> (2::int) \<le> 0 + 1"
  by (simp add: sample_run)

lemma fold_fail_Inl: "fold_fail f xs s = Inl e \<Longrightarrow> \<exists>x \<in> set xs. \<exists>s'. f x s' = Inl e"
  by (induction xs arbitrary: s) (auto split: sum.splits)

lemma index_of_Inl: "index_of xs x = Inl e \<Longrightarrow> e = ValueError"
  by (induction xs) (auto split: if_splits sum.splits)

lemma responses_to_counts_Inl:
  assumes "responses_to_counts list_of_set responses classes = Inl e"
  shows "e = ValueError"
proof -
  have a: "count_response classes i k r s = Inl e \<Longrightarrow> e = ValueError" for i k r s
    by (cases r; cases s) (auto dest: index_of_Inl split: sum.splits)
  have b: "count_observer classes (list_of_set (observer_keys responses)) i x s = Inl e
             \<Longrightarrow> e = ValueError" for i x s
    by (cases x) (auto dest: index_of_Inl fold_fail_Inl a split: sum.splits)
  have c: "count_patient classes (map fst responses) (list_of_set (observer_keys responses)) x s
             = Inl e \<Longrightarrow> e = ValueError" for x s
    by (cases x) (auto dest: index_of_Inl fold_fail_Inl b split: sum.splits)
  from assms have "fold_fail (count_patient classes (map fst responses)
                     (list_of_set (observer_keys responses))) responses
          (zeros3 (length responses) (length (list_of_set (observer_keys responses)))
             (length classes), replicate (length responses) 0) = Inl e"
    by (auto simp: responses_to_counts_def Let_def split: sum.splits)
  from fold_fail_Inl[OF this] c show ?thesis by blast
qed

lemma initialize_not_nan:
  assumes "initialize counts gold_data label_type = Inl e"
  shows "e \<noteq> NotANumber"
proof -
  from assms have "traverse (initialize_row counts gold_data label_type) [0..<nPatients counts]
                     = Inl e"
    by (simp add: initialize_def split: sum.splits)
  from traverse_Inl[OF this] obtain p where
    "initialize_row counts gold_data label_type p = Inl e" by blast
  then show ?thesis
    by (auto simp: initialize_row_def blindspot_row_def Let_def dest: is_blindspot_Inl
        split: sum.splits bool.splits if_splits)
qed

lemma m_step_nan_any:
  assumes "m_step counts rc g pc label_type n = Inl NotANumber"
  shows "m_step counts rc' g' pc' label_type n' = Inl NotANumber"
proof -
  have row: "m_step_row counts pc label_type k j = Inl e \<longleftrightarrow> m_step_row counts pc' label_type k j = Inl e"
    for k j e
    by (auto simp: m_step_row_def)
  have nn: "m_step_row counts pc label_type k j \<noteq> Inl NotANumber" for k j pc
    by (auto simp: m_step_row_def)
  from assms have np: "nPatients counts = 0 \<and> 0 < nClasses counts"
    by (auto simp: m_step_def Let_def split: sum.splits if_splits
        dest!: traverse_Inl dest: nn[THEN notE])
  from assms obtain er where
    t: "traverse (\<lambda>k. traverse (m_step_row counts pc label_type k) [0..<nClasses counts])
          [0..<nObservers counts] = Inr er"
    by (auto simp: m_step_def Let_def split: sum.splits if_splits
        dest!: traverse_Inl dest: nn[THEN notE])
  have ok: "\<exists>y. m_step_row counts pc'' label_type k j = Inr y"
    if "k < nObservers counts" "j < nClasses counts" for k j pc''
  proof -
    from traverse_upt_nth(1)[OF t that(1)]
    have "traverse (m_step_row counts pc label_type k) [0..<nClasses counts] = Inr (er ! k)" .
    from traverse_upt_nth(1)[OF this that(2)]
    have "m_step_row counts pc label_type k j = Inr (er ! k ! j)" .
    then show ?thesis by (auto simp: m_step_row_def split: if_splits)
  qed
  have inner: "\<exists>ys. traverse (m_step_row counts pc' label_type k) [0..<nClasses counts] = Inr ys"
    if "k < nObservers counts" for k
    by (rule traverse_total[where f = "m_step_row counts pc' label_type k"])
       (use ok[OF that] in auto)
  have "\<exists>er'. traverse (\<lambda>k. traverse (m_step_row counts pc' label_type k)
                 [0..<nClasses counts]) [0..<nObservers counts] = Inr er'"
    by (rule traverse_total[where
          f = "\<lambda>k. traverse (m_step_row counts pc' label_type k) [0..<nClasses counts]"])
       (use inner in auto)
  then show ?thesis using np by (auto simp: m_step_def Let_def)
qed

lemma em_loop_turns:
  assumes "em_loop counts review_counts gold_data label_type tol max_iter iteration old pc
             = (n, Inr (pc', cm, er))"
    and "0 \<le> iteration"
    and "em_turns counts review_counts gold_data label_type (nat iteration) pc0 = Inr (pc, old')"
  shows "em_turns counts review_counts gold_data label_type (nat n) pc0
           = Inr (pc', Some (cm, er))"
  using assms
proof (induction counts review_counts gold_data label_type tol max_iter iteration old pc
    arbitrary: old'
    rule: em_loop.induct)
  case (1 counts review_counts gold_data label_type tol max_iter iteration old pc)
  let ?loop = "em_loop counts review_counts gold_data label_type tol max_iter"
  let ?turns = "em_turns counts review_counts gold_data label_type"
  have nat_suc: "nat (iteration + 1) = Suc (nat iteration)" using "1.prems"(2) by simp
  have isuc: "int (Suc (nat iteration)) = iteration + 1" using "1.prems"(2) by simp
  have turn: "?turns (nat (iteration + 1)) pc0
                = em_turn counts review_counts gold_data label_type (iteration + 1) pc"
    unfolding nat_suc by (simp add: "1.prems"(3) isuc del: of_nat_Suc)
  have pos: "0 \<le> iteration + 1" using "1.prems"(2) by simp
  show ?case
  proof (cases "m_step counts review_counts gold_data pc label_type (iteration + 1)")
    case (Inl e)
    show ?thesis
    proof (cases "e = NotANumber")
      case False
      with Inl have "?loop iteration old pc = (iteration + 1, Inl e)"
        by (subst em_loop.simps) (cases e; simp)
      with "1.prems"(1) show ?thesis by simp
    next
      case True
      with Inl have "\<And>pc n. m_step counts review_counts gold_data pc label_type n = Inl NotANumber"
        using m_step_nan_any by blast
      from nan_loop[OF this] "1.prems"(1) show ?thesis by simp
    qed
  next
    case m: (Inr p)
    obtain cm1 er1 where p: "p = (cm1, er1)" by (cases p)
    note m = m[unfolded p]
    show ?thesis
    proof (cases "e_step counts gold_data cm1 er1 label_type")
      case (Inl e)
      with m have "?loop iteration old pc = (iteration + 1, Inl e)"
        by (subst em_loop.simps) simp
      with "1.prems"(1) show ?thesis by simp
    next
      case e: (Inr pc1)
      show ?thesis
      proof (cases "calc_likelihood counts cm1 er1")
        case (Inl x)
        with m e have "?loop iteration old pc = (iteration + 1, Inl x)"
          by (subst em_loop.simps) simp
        with "1.prems"(1) show ?thesis by simp
      next
        case l: (Inr log_L)
        have t1: "?turns (nat (iteration + 1)) pc0 = Inr (pc1, Some (cm1, er1))"
          unfolding turn by (simp add: em_turn_def m e l)
        show ?thesis
        proof (cases old)
          case None
          have step: "?loop iteration old pc = ?loop (iteration + 1) (Some (cm1, er1)) pc1"
            by (subst em_loop.simps) (simp add: m e l None)
          from "1.IH"(2)[OF m refl e l None _ pos t1] "1.prems"(1) show ?thesis
            unfolding step by simp
        next
          case (Some q)
          obtain ocm oer where q: "q = (ocm, oer)" by (cases q)
          note old = Some[unfolded q]
          show ?thesis
          proof (cases "(abs_diff1 cm1 ocm < tol \<and> abs_diff3 er1 oer < tol)
                          \<or> iteration + 1 > max_iter")
            case True
            have "?loop iteration old pc = (iteration + 1, Inr (pc1, cm1, er1))"
              by (subst em_loop.simps) (use True in \<open>auto simp: m e l old\<close>)
            with "1.prems"(1) t1 show ?thesis by simp
          next
            case False
            have step: "?loop iteration old pc = ?loop (iteration + 1) (Some (cm1, er1)) pc1"
              by (subst em_loop.simps) (use False in \<open>auto simp: m e l old\<close>)
            from "1.IH"(3)[OF m refl e l old refl False _ pos t1] "1.prems"(1) show ?thesis
              unfolding step by simp
          qed
        qed
      qed
    qed
  qed
qed


lemma em_turns_le:
  "em_turns counts rc g label_type n pc0 = Inr s \<Longrightarrow> k \<le> n \<Longrightarrow>
     \<exists>s'. em_turns counts rc g label_type k pc0 = Inr s'"
proof (induction n arbitrary: s)
  case 0
  then show ?case by simp
next
  case (Suc n)
  show ?case
  proof (cases "k = Suc n")
    case True
    with Suc.prems(1) show ?thesis by blast
  next
    case False
    with Suc.prems(2) have "k \<le> n" by simp
    moreover from Suc.prems(1) obtain s1 where "em_turns counts rc g label_type n pc0 = Inr s1"
      by (auto split: sum.splits)
    ultimately show ?thesis using Suc.IH by blast
  qed
qed

lemma em_turn_Inr:
  assumes "em_turn counts rc g label_type i pc = Inr (pc', old)"
  shows "\<exists>cm er. m_step counts rc g pc label_type i = Inr (cm, er)
           \<and> e_step counts g cm er label_type = Inr pc'
           \<and> (\<exists>l. calc_likelihood counts cm er = Inr l) \<and> old = Some (cm, er)"
  using assms by (auto simp: em_turn_def split: sum.splits prod.splits)

lemma two_turns:
  assumes "em_turns counts rc g label_type n pc0 = Inr s" and "2 \<le> n"
  shows "\<exists>cm1 er1 pc1 cm2 er2 pc2.
           m_step counts rc g pc0 label_type 1 = Inr (cm1, er1)
         \<and> e_step counts g cm1 er1 label_type = Inr pc1
         \<and> m_step counts rc g pc1 label_type 2 = Inr (cm2, er2)
         \<and> e_step counts g cm2 er2 label_type = Inr pc2"
proof -
  from em_turns_le[OF assms] obtain s2 where
    s2: "em_turns counts rc g label_type (Suc (Suc 0)) pc0 = Inr s2"
    by (auto simp: numeral_2_eq_2)
  then obtain pc1 o1 where
    t1: "em_turn counts rc g label_type 1 pc0 = Inr (pc1, o1)"
    and t2: "em_turn counts rc g label_type 2 pc1 = Inr s2"
    by (auto split: sum.splits)
  obtain pc2 o2 where "s2 = (pc2, o2)" by (cases s2)
  with em_turn_Inr[OF t1] em_turn_Inr[of counts rc g label_type 2 pc1 pc2 o2] t2
  show ?thesis by blast
qed

text \<open>
  Claim C10, as the code has it. The loop is never left by its test after the first
  turn: whatever the tolerance and the bound on the iterations, a run that returns (a
  result, or the result with NaN class marginals of an empty data set) has made at
  least two turns of the loop; and when it returns a result, the M-step and the E-step
  of the first and of the second iteration were both carried out, and the result is
  that of as many full iterations in a row as the loop made turns.
\<close>

theorem run_two_full_iterations:
  assumes "run list_of_set responses review_counts classes label_type tol max_iter = (n, outcome)"
    and "returned outcome"
  shows "2 \<le> n
       \<and> (\<forall>pc cm er. outcome = Inr (pc, cm, er) \<longrightarrow>
            (\<exists>patients observers classes' counts gold_data pc0 rb cm1 er1 pc1 cm2 er2 pc2.
                responses_to_counts list_of_set responses classes
                  = Inr (patients, observers, classes', counts, gold_data)
              \<and> initialize counts gold_data label_type = Inr (pc0, rb)
              \<and> m_step counts review_counts gold_data pc0 label_type 1 = Inr (cm1, er1)
              \<and> e_step counts gold_data cm1 er1 label_type = Inr pc1
              \<and> m_step counts review_counts gold_data pc1 label_type 2 = Inr (cm2, er2)
              \<and> e_step counts gold_data cm2 er2 label_type = Inr pc2
              \<and> em_turns counts review_counts gold_data label_type (nat n) pc0
                  = Inr (pc, Some (cm, er))))"
proof (cases "responses_to_counts list_of_set responses classes")
  case (Inl e)
  then have "e = ValueError" by (rule responses_to_counts_Inl)
  with Inl assms show ?thesis by (auto simp: run_def returned_def)
next
  case (Inr t)
  obtain patients observers classes' counts gold_data where
    t: "t = (patients, observers, classes', counts, gold_data)" by (cases t)
  note r = Inr[unfolded t]
  show ?thesis
  proof (cases "initialize counts gold_data label_type")
    case (Inl e)
    then have "e \<noteq> NotANumber" by (rule initialize_not_nan)
    with Inl r assms show ?thesis by (auto simp: run_def returned_def)
  next
    case i: (Inr q)
    obtain pc0 rb where q: "q = (pc0, rb)" by (cases q)
    note i = i[unfolded q]
    have loop: "em_loop counts review_counts gold_data label_type tol max_iter 0 None pc0
                  = (n, outcome)"
      using assms(1) r i by (simp add: run_def)
    have sn: "returned (snd (em_loop counts review_counts gold_data label_type tol max_iter 0
                                None pc0))"
      using assms(2) loop by simp
    from em_loop_iterations[of counts review_counts gold_data label_type tol max_iter 0 None pc0,
        THEN conjunct2, rule_format, OF sn] loop
    have two: "2 \<le> n" by simp
    have full: "\<exists>patients observers classes' counts gold_data pc0 rb cm1 er1 pc1 cm2 er2 pc2.
                responses_to_counts list_of_set responses classes
                  = Inr (patients, observers, classes', counts, gold_data)
              \<and> initialize counts gold_data label_type = Inr (pc0, rb)
              \<and> m_step counts review_counts gold_data pc0 label_type 1 = Inr (cm1, er1)
              \<and> e_step counts gold_data cm1 er1 label_type = Inr pc1
              \<and> m_step counts review_counts gold_data pc1 label_type 2 = Inr (cm2, er2)
              \<and> e_step counts gold_data cm2 er2 label_type = Inr pc2
              \<and> em_turns counts review_counts gold_data label_type (nat n) pc0
                  = Inr (pc, Some (cm, er))"
      if o: "outcome = Inr (pc, cm, er)" for pc cm er
    proof -
      have t0: "em_turns counts review_counts gold_data label_type (nat 0) pc0 = Inr (pc0, None)"
        by simp
      from em_loop_turns[OF loop[unfolded o] _ t0]
      have tn: "em_turns counts review_counts gold_data label_type (nat n) pc0
                  = Inr (pc, Some (cm, er))" by simp
      from two have "2 \<le> nat n" by simp
      from two_turns[OF tn this] r i tn show ?thesis by blast
    qed
    from two full show ?thesis by blast
  qed
qed

theorem run_two_full_iterations_witness:
  "run remdups [([1::int], [(1::int, [(0, ''f''), (0, ''f'')])])] [0, 0] [0, 1]
      (''average'', 1) 1000 100 = (2, Inr ([[1, 0]], [1, 0], [[[1, 0], [0, 0]]]))
   \<and> returned (Inr ([[1, 0 :: real]], [1, 0 :: real], [[[1, 0], [0, 0 :: real]]])
                 :: failure + real list list \<times> real list \<times> real list list list)
   \<and> em_turns \<lparr>nPatients = 1, nObservers = 1, nClasses = 2, cells = [[[2, 0]]]\<rparr>
         [0, 0] [0] (''average'', 1) (nat 2) [[1, 0]]
       = Inr ([[1, 0]], Some ([1, 0], [[[1, 0], [0, 0]]]))"
proof -
  define c where "c = \<lparr>nPatients = 1, nObservers = 1, nClasses = 2, cells = [[[2, 0]]]\<rparr>"
  have h1: "run remdups [([1::int], [(1::int, [(0, ''f''), (0, ''f'')])])] [0, 0] [0, 1]
      (''average'', 1) 1000 100 = (2, Inr ([[1, 0]], [1, 0], [[[1, 0], [0, 0]]]))"
    by (simp add: sample_run)
  have h2: "returned (Inr ([[1, 0 :: real]], [1, 0 :: real], [[[1, 0], [0, 0 :: real]]])
                 :: failure + real list list \<times> real list \<times> real list list list)"
    by (simp add: returned_def)
  have r: "responses_to_counts remdups [([1::int], [(1::int, [(0, ''f''), (0, ''f'')])])] [0, 1]
             = Inr ([[1]], [1], [0, 1], c, [0])"
    unfolding c_def by code_simp
  have i: "initialize c [0] (''average'', 1) = Inr ([[1, 0]], [])"
    unfolding c_def by code_simp
  from run_two_full_iterations[OF h1 h2]
  have "\<forall>pc cm er. (Inr ([[1, 0 :: real]], [1, 0 :: real], [[[1, 0], [0, 0 :: real]]])
                 :: failure + real list list \<times> real list \<times> real list list list) = Inr (pc, cm, er) \<longrightarrow>
            (\<exists>patients observers classes' counts gold_data pc0 rb cm1 er1 pc1 cm2 er2 pc2.
                responses_to_counts remdups [([1::int], [(1::int, [(0, ''f''), (0, ''f'')])])] [0, 1]
                  = Inr (patients, observers, classes', counts, gold_data)
              \<and> initialize counts gold_data (''average'', 1) = Inr (pc0, rb)
              \<and> m_step counts [0, 0] gold_data pc0 (''average'', 1) 1 = Inr (cm1, er1)
              \<and> e_step counts gold_data cm1 er1 (''average'', 1) = Inr pc1
              \<and> m_step counts [0, 0] gold_data pc1 (''average'', 1) 2 = Inr (cm2, er2)
              \<and> e_step counts gold_data cm2 er2 (''average'', 1) = Inr pc2
              \<and> em_turns counts [0, 0] gold_data (''average'', 1) (nat 2) pc0
                  = Inr (pc, Some (cm, er)))"
    by (rule conjunct2)
  from this[rule_format, OF refl]
  obtain patients observers classes' counts gold_data pc0 rb
    where r': "responses_to_counts remdups [([1::int], [(1::int, [(0, ''f''), (0, ''f'')])])] [0, 1]
             = Inr (patients, observers, classes', counts, gold_data)"
      and i': "initialize counts gold_data (''average'', 1) = Inr (pc0, rb)"
      and t': "em_turns counts [0, 0] gold_data (''average'', 1) (nat 2) pc0
             = Inr ([[1, 0]], Some ([1, 0], [[[1, 0], [0, 0]]]))"
    by (elim exE conjE) (rule that; assumption)
  from r'[symmetric] r have "Inr (patients, observers, classes', counts, gold_data)
      = (Inr ([[1]], [1], [0, 1], c, [0])
          :: failure + int list list \<times> int list \<times> int list \<times> count_tensor \<times> nat list)"
    by (rule trans)
  then have cg: "counts = c" "gold_data = [0]"
    by (simp_all only: sum.inject prod.inject)
  from i'[unfolded cg, symmetric] i have "Inr (pc0, rb) = (Inr ([[1, 0]], []) :: failure + real list list \<times> nat list)"
    by (rule trans)
  then have p: "pc0 = [[1, 0]]"
    by (simp only: sum.inject prod.inject)
  note t = t'[unfolded cg p c_def]
  from h1 h2 t show ?thesis by (intro conjI)
qed

text \<open>
  Claim C10 as stated fails: a run can stop inside its first turn. For one item without
  observations the class marginals of the first M-step are all zero, the likelihood of
  the item is zero, and \<open>calc_likelihood\<close> exits in the first iteration.
\<close>

theorem run_first_turn_exit_counterexample:
  "run remdups [([1::int], [] :: (int \<times> response list) list)] [0, 0] [0, 1]
      (''average'', 1) (1/100000) 100 = (1, Inl (SystemExit 0 0 MinusInf MinusInf))
   \<and> \<not> (2::int) \<le> 1"
proof -
  define c where "c = \<lparr>nPatients = 1, nObservers = 0, nClasses = 2, cells = [[]]\<rparr>"
  let ?lt = "(''average'', 1 :: int)"
  have r: "responses_to_counts remdups [([1::int], [] :: (int \<times> response list) list)] [0, 1]
             = Inr ([[1]], [], [0, 1], c, [0])"
    unfolding c_def by code_simp
  have i: "initialize c [0] ?lt = Inr ([[0, 0]], [])"
    unfolding c_def by code_simp
  have m: "m_step c [0, 0] [0] [[0, 0]] ?lt 1 = Inr ([0, 0], [])"
    unfolding c_def by (simp add: m_step_def column_sum_def numeral_2_eq_2)
  have e: "e_step c [0] [0, 0] [] ?lt = Inr [[0, 0]]"
    unfolding c_def by code_simp
  have l: "calc_likelihood c [0, 0] [] = Inl (SystemExit 0 0 MinusInf MinusInf)"
    unfolding c_def
    by (simp add: calc_likelihood_def patient_likelihood_def class_likelihood_def np_log_def
        numeral_2_eq_2)
  have "em_loop c [0, 0] [0] ?lt (1/100000) 100 0 None [[0, 0]]
          = (1, Inl (SystemExit 0 0 MinusInf MinusInf))"
    by (subst em_loop.simps) (simp add: m e l)
  then show ?thesis by (simp add: run_def r i)
qed


section \<open>Count aggregation\<close>

lemma index_of_Inr: "index_of xs x = Inr n \<Longrightarrow> n < length xs \<and> xs ! n = x"
  by (induction xs arbitrary: n) (auto split: if_splits sum.splits)

lemma index_of_mem: "x \<in> set xs \<Longrightarrow> \<exists>n. index_of xs x = Inr n"
  by (induction xs) auto

lemma index_of_nth: "distinct xs \<Longrightarrow> n < length xs \<Longrightarrow> index_of xs (xs ! n) = Inr n"
proof (induction xs arbitrary: n)
  case Nil
  then show ?case by simp
next
  case (Cons y ys)
  then show ?case by (cases n) auto
qed

lemma index_of_iff:
  "distinct xs \<Longrightarrow> index_of xs x = Inr n \<longleftrightarrow> n < length xs \<and> xs ! n = x"
  using index_of_Inr index_of_nth by metis

lemma shape3_nth:
  "shape3 cs a b c \<Longrightarrow> i < a \<Longrightarrow> k < b \<Longrightarrow>
     length cs = a \<and> length (cs ! i) = b \<and> length (cs ! i ! k) = c"
  by (simp add: shape3_def)

lemma nth_update_any: "xs[i := x] ! j = (if i = j \<and> i < length xs then x else xs ! j)"
  by (cases "i < length xs") (auto simp: nth_list_update list_update_beyond)

lemma shape3_incr: "shape3 cs a b c \<Longrightarrow> shape3 (incr cs i k j) a b c"
  unfolding shape3_def incr_def
  by (auto simp: nth_update_any)

lemma shape3_wf:
  "shape3 cs a b c \<Longrightarrow>
     wf_counts \<lparr>nPatients = a, nObservers = b, nClasses = c, cells = cs\<rparr>"
  by (auto simp: shape3_def wf_counts_def in_set_conv_nth)

lemma incr_nth:
  assumes "shape3 cs a b c" "i < a" "k < b" "j < c" "i' < a" "k' < b" "j' < c"
  shows "incr cs i k j ! i' ! k' ! j' =
           cs ! i' ! k' ! j' + (if i' = i \<and> k' = k \<and> j' = j then 1 else 0)"
  using shape3_nth[OF assms(1,2,3)] shape3_nth[OF assms(1,5,6)] assms
  by (auto simp: incr_def nth_list_update)

lemma zeros3_shape: "shape3 (zeros3 a b c) a b c"
  by (auto simp: shape3_def zeros3_def)

lemma zeros3_nth: "i < a \<Longrightarrow> k < b \<Longrightarrow> j < c \<Longrightarrow> zeros3 a b c ! i ! k ! j = 0"
  by (simp add: zeros3_def)


lemma count_response_loop:
  assumes "fold_fail (count_response classes i k) rs (cs, g) = Inr (cs', g')"
    and "shape3 cs a b (length classes)" and "length g = a" and "i < a" and "k < b"
  shows "shape3 cs' a b (length classes) \<and> length g' = a
       \<and> (\<forall>i'<a. \<forall>k'<b. \<forall>j'<length classes.
             cs' ! i' ! k' ! j' =
               cs ! i' ! k' ! j' +
                 (if i' = i \<and> k' = k
                  then length (filter (\<lambda>r. index_of classes (fst r) = Inr j') rs) else 0))
       \<and> (\<forall>i'<a. g' ! i' = (if i' = i \<and> list_ex is_gold_one rs then 1 else g ! i'))"
  using assms
proof (induction rs arbitrary: cs g)
  case Nil
  then show ?case by simp
next
  case (Cons r rs)
  obtain c t where r: "r = (c, t)" by (cases r)
  from Cons.prems(1) obtain j where j: "index_of classes c = Inr j"
    by (auto simp: r split: sum.splits)
  define cs1 where "cs1 = incr cs i k j"
  define g1 where "g1 = (if c = 1 \<and> t = ''t'' then g[i := 1] else g)"
  from Cons.prems(1) have rest: "fold_fail (count_response classes i k) rs (cs1, g1) = Inr (cs', g')"
    by (simp add: r j cs1_def g1_def)
  have sh1: "shape3 cs1 a b (length classes)"
    unfolding cs1_def using Cons.prems(2) by (rule shape3_incr)
  have lg1: "length g1 = a" using Cons.prems(3) by (simp add: g1_def)
  note IH = Cons.IH[OF rest sh1 lg1 Cons.prems(4,5)]
  have jl: "j < length classes" using index_of_Inr[OF j] by simp
  have c1: "cs1 ! i' ! k' ! j' = cs ! i' ! k' ! j' + (if i' = i \<and> k' = k \<and> j' = j then 1 else 0)"
    if "i' < a" "k' < b" "j' < length classes" for i' k' j'
    unfolding cs1_def using incr_nth[OF Cons.prems(2,4,5) jl that] .
  have g1n: "g1 ! i' = (if i' = i \<and> is_gold_one r then 1 else g ! i')" if "i' < a" for i'
    using that Cons.prems(3) by (auto simp: g1_def r is_gold_one_def nth_list_update)
  show ?case
  proof (intro conjI allI impI)
    show "shape3 cs' a b (length classes)" using IH by simp
    show "length g' = a" using IH by simp
  next
    fix i' k' j' assume b: "i' < a" "k' < b" "j' < length classes"
    with IH have "cs' ! i' ! k' ! j' =
               cs1 ! i' ! k' ! j' +
                 (if i' = i \<and> k' = k
                  then length (filter (\<lambda>r. index_of classes (fst r) = Inr j') rs) else 0)"
      by simp
    then show "cs' ! i' ! k' ! j' =
               cs ! i' ! k' ! j' +
                 (if i' = i \<and> k' = k
                  then length (filter (\<lambda>r. index_of classes (fst r) = Inr j') (r # rs)) else 0)"
      using c1[OF b] by (auto simp: r j)
  next
    fix i' assume b: "i' < a"
    with IH have "g' ! i' = (if i' = i \<and> list_ex is_gold_one rs then 1 else g1 ! i')" by simp
    then show "g' ! i' = (if i' = i \<and> list_ex is_gold_one (r # rs) then 1 else g ! i')"
      using g1n[OF b] by auto
  qed
qed


lemma count_observer_loop:
  assumes "fold_fail (count_observer classes observers i) obs (cs, g) = Inr (cs', g')"
    and "shape3 cs a (length observers) (length classes)" and "length g = a" and "i < a"
    and "distinct observers" and "distinct (map fst obs)"
  shows "shape3 cs' a (length observers) (length classes) \<and> length g' = a
       \<and> (\<forall>i'<a. \<forall>k'<length observers. \<forall>j'<length classes.
             cs' ! i' ! k' ! j' =
               cs ! i' ! k' ! j' +
                 (if i' = i
                  then length (filter (\<lambda>r. index_of classes (fst r) = Inr j')
                                 (case map_of obs (observers ! k') of None \<Rightarrow> [] | Some rs \<Rightarrow> rs))
                  else 0))
       \<and> (\<forall>i'<a. g' ! i' =
             (if i' = i \<and> list_ex (\<lambda>(ob, rs). list_ex is_gold_one rs) obs then 1 else g ! i'))"
  using assms(1,2,3,6)
proof (induction obs arbitrary: cs g)
  case Nil
  then show ?case by simp
next
  case (Cons x obs)
  obtain ob rs where x: "x = (ob, rs)" by (cases x)
  from Cons.prems(1) obtain k where k: "index_of observers ob = Inr k"
    by (auto simp: x split: sum.splits)
  from Cons.prems(1) obtain cs1 g1 where
    inner: "fold_fail (count_response classes i k) rs (cs, g) = Inr (cs1, g1)"
    and rest: "fold_fail (count_observer classes observers i) obs (cs1, g1) = Inr (cs', g')"
    by (auto simp: x k split: sum.splits)
  have kl: "k < length observers" and ko: "observers ! k = ob"
    using index_of_Inr[OF k] by simp_all
  note A = count_response_loop[OF inner Cons.prems(2,3) assms(4) kl]
  from Cons.prems(4) have d: "distinct (map fst obs)" and nin: "ob \<notin> fst ` set obs"
    by (simp_all add: x)
  from A have sh1: "shape3 cs1 a (length observers) (length classes)" and lg1: "length g1 = a"
    by simp_all
  note IH = Cons.IH[OF rest sh1 lg1 d]
  have none: "map_of obs ob = None" using nin by (simp add: map_of_eq_None_iff)
  show ?case
  proof (intro conjI allI impI)
    show "shape3 cs' a (length observers) (length classes)" using IH by simp
    show "length g' = a" using IH by simp
  next
    fix i' k' j' assume b: "i' < a" "k' < length observers" "j' < length classes"
    have eq: "observers ! k' = ob \<longleftrightarrow> k' = k"
      using assms(5) b(2) kl ko by (auto simp: nth_eq_iff_index_eq)
    from IH b have 1: "cs' ! i' ! k' ! j' =
               cs1 ! i' ! k' ! j' +
                 (if i' = i
                  then length (filter (\<lambda>r. index_of classes (fst r) = Inr j')
                                 (case map_of obs (observers ! k') of None \<Rightarrow> [] | Some rs \<Rightarrow> rs))
                  else 0)" by simp
    from A b have 2: "cs1 ! i' ! k' ! j' =
               cs ! i' ! k' ! j' +
                 (if i' = i \<and> k' = k
                  then length (filter (\<lambda>r. index_of classes (fst r) = Inr j') rs) else 0)"
      by simp
    show "cs' ! i' ! k' ! j' =
               cs ! i' ! k' ! j' +
                 (if i' = i
                  then length (filter (\<lambda>r. index_of classes (fst r) = Inr j')
                                 (case map_of (x # obs) (observers ! k') of
                                    None \<Rightarrow> [] | Some rs \<Rightarrow> rs))
                  else 0)"
    proof (cases "k' = k")
      case True
      then show ?thesis unfolding 1 2 using ko none by (simp add: x)
    next
      case False
      then have "observers ! k' \<noteq> ob" using eq by simp
      then show ?thesis unfolding 1 2 using False by (simp add: x)
    qed
  next
    fix i' assume b: "i' < a"
    with IH have "g' ! i' =
             (if i' = i \<and> list_ex (\<lambda>(ob, rs). list_ex is_gold_one rs) obs then 1 else g1 ! i')"
      by simp
    moreover from A b have "g1 ! i' = (if i' = i \<and> list_ex is_gold_one rs then 1 else g ! i')"
      by simp
    ultimately show "g' ! i' =
             (if i' = i \<and> list_ex (\<lambda>(ob, rs). list_ex is_gold_one rs) (x # obs)
              then 1 else g ! i')"
      by (auto simp: x)
  qed
qed


lemma count_patient_loop:
  assumes "fold_fail (count_patient classes patients observers) rsp (cs, g) = Inr (cs', g')"
    and "shape3 cs (length patients) (length observers) (length classes)"
    and "length g = length patients"
    and "distinct patients" and "distinct observers"
    and "distinct (map fst rsp)" and "\<forall>(p, obs) \<in> set rsp. distinct (map fst obs)"
  shows "shape3 cs' (length patients) (length observers) (length classes)
       \<and> length g' = length patients
       \<and> (\<forall>i'<length patients. \<forall>k'<length observers. \<forall>j'<length classes.
             cs' ! i' ! k' ! j' =
               cs ! i' ! k' ! j' +
                 length (filter (\<lambda>r. index_of classes (fst r) = Inr j')
                           (observations rsp (patients ! i') (observers ! k'))))
       \<and> (\<forall>i'<length patients.
             g' ! i' = (if spec_gold rsp (patients ! i') then 1 else g ! i'))"
  using assms(1,2,3,6,7)
proof (induction rsp arbitrary: cs g)
  case Nil
  then show ?case by (simp add: observations_def spec_gold_def)
next
  case (Cons x rsp)
  obtain p obs where x: "x = (p, obs)" by (cases x)
  from Cons.prems(1) obtain i where i: "index_of patients p = Inr i"
    by (auto simp: x split: sum.splits)
  from Cons.prems(1) obtain cs1 g1 where
    inner: "fold_fail (count_observer classes observers i) obs (cs, g) = Inr (cs1, g1)"
    and rest: "fold_fail (count_patient classes patients observers) rsp (cs1, g1) = Inr (cs', g')"
    by (auto simp: x i split: sum.splits)
  have il: "i < length patients" and ip: "patients ! i = p"
    using index_of_Inr[OF i] by simp_all
  from Cons.prems(5) have dobs: "distinct (map fst obs)" by (simp add: x)
  note B = count_observer_loop[OF inner Cons.prems(2,3) il assms(5) dobs]
  from Cons.prems(4) have d: "distinct (map fst rsp)" and nin: "p \<notin> fst ` set rsp"
    by (simp_all add: x)
  from Cons.prems(5) have dd: "\<forall>(p, obs) \<in> set rsp. distinct (map fst obs)" by simp
  from B have sh1: "shape3 cs1 (length patients) (length observers) (length classes)"
    and lg1: "length g1 = length patients" by simp_all
  note IH = Cons.IH[OF rest sh1 lg1 d dd]
  have none: "map_of rsp p = None" using nin by (simp add: map_of_eq_None_iff)
  show ?case
  proof (intro conjI allI impI)
    show "shape3 cs' (length patients) (length observers) (length classes)" using IH by simp
    show "length g' = length patients" using IH by simp
  next
    fix i' k' j'
    assume b: "i' < length patients" "k' < length observers" "j' < length classes"
    have eq: "patients ! i' = p \<longleftrightarrow> i' = i"
      using assms(4) b(1) il ip by (auto simp: nth_eq_iff_index_eq)
    from IH b have 1: "cs' ! i' ! k' ! j' =
               cs1 ! i' ! k' ! j' +
                 length (filter (\<lambda>r. index_of classes (fst r) = Inr j')
                           (observations rsp (patients ! i') (observers ! k')))" by simp
    from B b have 2: "cs1 ! i' ! k' ! j' =
               cs ! i' ! k' ! j' +
                 (if i' = i
                  then length (filter (\<lambda>r. index_of classes (fst r) = Inr j')
                                 (case map_of obs (observers ! k') of None \<Rightarrow> [] | Some rs \<Rightarrow> rs))
                  else 0)" by simp
    show "cs' ! i' ! k' ! j' =
               cs ! i' ! k' ! j' +
                 length (filter (\<lambda>r. index_of classes (fst r) = Inr j')
                           (observations (x # rsp) (patients ! i') (observers ! k')))"
    proof (cases "i' = i")
      case True
      then show ?thesis unfolding 1 2 using ip none by (simp add: x observations_def)
    next
      case False
      then have "patients ! i' \<noteq> p" using eq by simp
      then show ?thesis unfolding 1 2 using False by (simp add: x observations_def)
    qed
  next
    fix i' assume b: "i' < length patients"
    have eq: "patients ! i' = p \<longleftrightarrow> i' = i"
      using assms(4) b il ip by (auto simp: nth_eq_iff_index_eq)
    from IH b have 1: "g' ! i' = (if spec_gold rsp (patients ! i') then 1 else g1 ! i')" by simp
    from B b have 2: "g1 ! i' =
             (if i' = i \<and> list_ex (\<lambda>(ob, rs). list_ex is_gold_one rs) obs then 1 else g ! i')"
      by simp
    show "g' ! i' = (if spec_gold (x # rsp) (patients ! i') then 1 else g ! i')"
    proof (cases "i' = i")
      case True
      then show ?thesis unfolding 1 2 using ip none by (simp add: x spec_gold_def)
    next
      case False
      then have "patients ! i' \<noteq> p" using eq by simp
      then show ?thesis unfolding 1 2 using False by (simp add: x spec_gold_def)
    qed
  qed
qed

lemma fold_fail_total:
  "(\<And>x s. x \<in> set xs \<Longrightarrow> \<exists>s'. f x s = Inr s') \<Longrightarrow> \<exists>s'. fold_fail f xs s = Inr s'"
proof (induction xs arbitrary: s)
  case Nil
  then show ?case by simp
next
  case (Cons x xs)
  from Cons.prems[of x s] obtain s1 where "f x s = Inr s1" by auto
  moreover from Cons.IH[of s1] Cons.prems obtain s' where "fold_fail f xs s1 = Inr s'"
    by auto
  ultimately show ?case by simp
qed

lemma responses_to_counts_total:
  assumes "set_listing list_of_set"
    and "\<forall>(p, obs) \<in> set responses. \<forall>(ob, rs) \<in> set obs. \<forall>r \<in> set rs. fst r \<in> set classes"
  shows "\<exists>res. responses_to_counts list_of_set responses classes = Inr res"
proof -
  let ?patients = "map fst responses" and ?observers = "list_of_set (observer_keys responses)"
  have a: "\<exists>s'. count_response classes i k r s = Inr s'" if "fst r \<in> set classes" for i k r s
  proof -
    from index_of_mem[OF that] obtain j where "index_of classes (fst r) = Inr j" ..
    then show ?thesis by (cases r; cases s) simp
  qed
  have b: "\<exists>s'. count_observer classes ?observers i x s = Inr s'"
    if "fst x \<in> set ?observers" "\<forall>r \<in> set (snd x). fst r \<in> set classes" for i x s
  proof -
    from index_of_mem[OF that(1)] obtain k where k: "index_of ?observers (fst x) = Inr k" ..
    from fold_fail_total[of "snd x" "count_response classes i k" s] a that(2)
    obtain s' where "fold_fail (count_response classes i k) (snd x) s = Inr s'" by blast
    with k show ?thesis by (cases x) simp
  qed
  have c: "\<exists>s'. count_patient classes ?patients ?observers x s = Inr s'"
    if "x \<in> set responses" for x s
  proof -
    obtain p obs where x: "x = (p, obs)" by (cases x)
    from that have "p \<in> set ?patients" by (force simp: x)
    from index_of_mem[OF this] obtain i where i: "index_of ?patients p = Inr i" ..
    have "\<exists>s'. count_observer classes ?observers i y s = Inr s'" if y: "y \<in> set obs" for y s
    proof (rule b)
      obtain ob rs where yy: "y = (ob, rs)" by (cases y)
      have "ob \<in> set (observer_keys responses)"
        unfolding observer_keys_def using y \<open>x \<in> set responses\<close>
        by (auto simp: x yy image_iff intro!: bexI[of _ "(p, obs)"] bexI[of _ "(ob, rs)"])
      then show "fst y \<in> set ?observers" using assms(1) by (simp add: set_listing_def yy)
      from assms(2) \<open>x \<in> set responses\<close> have "\<forall>(ob, rs) \<in> set obs. \<forall>r \<in> set rs. fst r \<in> set classes"
        unfolding x by blast
      with y show "\<forall>r \<in> set (snd y). fst r \<in> set classes"
        unfolding yy by auto
    qed
    from fold_fail_total[of obs "count_observer classes ?observers i" s] this
    obtain s' where "fold_fail (count_observer classes ?observers i) obs s = Inr s'" by blast
    with i show ?thesis by (simp add: x)
  qed
  from fold_fail_total[of responses "count_patient classes ?patients ?observers"] c
  obtain s' where "fold_fail (count_patient classes ?patients ?observers) responses
      (zeros3 (length ?patients) (length ?observers) (length classes),
       replicate (length ?patients) 0) = Inr s'" by blast
  then show ?thesis by (cases s') (simp add: responses_to_counts_def Let_def)
qed

text \<open>
  Claim C9. For a dictionary of responses (distinct patients, distinct observers for
  each patient) and distinct classes, when \<open>responses_to_counts\<close> returns: the cell
  \<open>[i][k][j]\<close> of the count tensor is the number of observations of the \<open>i\<close>-th patient
  by the \<open>k\<close>-th observer whose class label is the \<open>j\<close>-th class, and the gold entry of
  the \<open>i\<close>-th patient is 1 if one of its observations has class label 1 and the gold
  flag, and 0 otherwise, so a gold observation of class 0 leaves it at 0. (It returns
  whenever every class label is one of the classes: \<open>responses_to_counts_total\<close>.)
\<close>

theorem responses_to_counts_postcondition:
  assumes "responses_to_counts list_of_set responses classes
             = Inr (patients, observers, classes', counts, gold_data)"
    and "distinct (map fst responses)"
    and "\<forall>(p, obs) \<in> set responses. distinct (map fst obs)"
    and "set_listing list_of_set"
    and "distinct classes"
  shows "patients = map fst responses
       \<and> observers = list_of_set (observer_keys responses)
       \<and> wf_counts counts
       \<and> nPatients counts = length patients
       \<and> nObservers counts = length observers
       \<and> nClasses counts = length classes
       \<and> length gold_data = length patients
       \<and> (\<forall>i<length patients. \<forall>k<length observers. \<forall>j<length classes.
             cnt counts i k j = spec_count responses (patients ! i) (observers ! k) (classes ! j))
       \<and> (\<forall>i<length patients.
             gold_data ! i = (if spec_gold responses (patients ! i) then 1 else 0))"
proof -
  let ?a = "length responses" and ?b = "length (list_of_set (observer_keys responses))"
    and ?c = "length classes"
  from assms(1) obtain cs where
    f: "fold_fail (count_patient classes (map fst responses)
                     (list_of_set (observer_keys responses))) responses
          (zeros3 ?a ?b ?c, replicate ?a 0) = Inr (cs, gold_data)"
    and pt: "patients = map fst responses"
    and ob: "observers = list_of_set (observer_keys responses)"
    and ct: "counts = \<lparr>nPatients = ?a, nObservers = ?b, nClasses = ?c, cells = cs\<rparr>"
    by (auto simp: responses_to_counts_def Let_def split: sum.splits)
  have dobs: "distinct (list_of_set (observer_keys responses))"
    using assms(4) by (simp add: set_listing_def)
  have sh0: "shape3 (zeros3 ?a ?b ?c) (length (map fst responses)) ?b ?c"
    by (simp add: zeros3_shape)
  have lg0: "length (replicate ?a (0::nat)) = length (map fst responses)" by simp
  note C = count_patient_loop[OF f sh0 lg0 assms(2) dobs assms(2,3)]
  from C have sh: "shape3 cs ?a ?b ?c" by simp
  have cell: "cnt counts i k j = spec_count responses (patients ! i) (observers ! k) (classes ! j)"
    if "i < length patients" "k < length observers" "j < length classes" for i k j
  proof -
    have "(\<lambda>r :: response. index_of classes (fst r) = Inr j) = (\<lambda>r. fst r = classes ! j)"
      using index_of_iff[OF assms(5)] that(3) by auto
    with C that show ?thesis
      by (simp add: pt ob ct cnt_def spec_count_def zeros3_nth)
  qed
  have gold: "gold_data ! i = (if spec_gold responses (patients ! i) then 1 else 0)"
    if "i < length patients" for i
    using C that by (simp add: pt)
  show ?thesis
    using shape3_wf[OF sh] C cell gold by (simp add: pt ob ct)
qed


theorem responses_to_counts_postcondition_witness:
  "responses_to_counts remdups
      [([1, 2 :: int], [(1 :: int, [(0, ''f''), (1, ''t''), (1, ''f'')])]),
       ([3, 4], [(1, [(0, ''t'')])])] [0, 1]
     = Inr ([[1, 2], [3, 4]], [1], [0, 1],
            \<lparr>nPatients = 2, nObservers = 1, nClasses = 2, cells = [[[1, 2]], [[1, 0]]]\<rparr>,
            [1, 0])
   \<and> spec_count [([1, 2 :: int], [(1 :: int, [(0, ''f''), (1, ''t''), (1, ''f'')])]),
                  ([3, 4], [(1, [(0, ''t'')])])] [1, 2] 1 1 = 2
   \<and> \<not> spec_gold [([1, 2 :: int], [(1 :: int, [(0, ''f''), (1, ''t''), (1, ''f'')])]),
                    ([3, 4], [(1, [(0, ''t'')])])] [3, 4]"
proof -
  define R :: "(int list, int) responses" where
    "R = [([1, 2], [(1, [(0, ''f''), (1, ''t''), (1, ''f'')])]), ([3, 4], [(1, [(0, ''t'')])])]"
  define C where
    "C = \<lparr>nPatients = 2, nObservers = 1, nClasses = 2, cells = [[[1, 2]], [[1, 0]]]\<rparr>"
  have h1: "responses_to_counts remdups R [0, 1]
              = Inr ([[1, 2], [3, 4]], [1], [0, 1], C, [1, 0])"
    unfolding R_def C_def by code_simp
  have h2: "distinct (map fst R)" by (simp add: R_def)
  have h3: "\<forall>(p, obs) \<in> set R. distinct (map fst obs)" by (simp add: R_def)
  have h4: "set_listing (remdups :: int list \<Rightarrow> int list)" by (simp add: set_listing_def)
  have h5: "distinct [0, 1 :: int]" by simp
  note post = responses_to_counts_postcondition[OF h1 h2 h3 h4 h5]
  from post have "\<forall>i<length [[1, 2], [3, 4 :: int]]. \<forall>k<length [1 :: int].
      \<forall>j<length [0, 1 :: int].
        cnt C i k j = spec_count R ([[1, 2], [3, 4]] ! i) ([1] ! k) ([0, 1] ! j)"
    by blast
  from this[rule_format, of 0 0 1] have a: "spec_count R [1, 2] 1 1 = 2"
    by (simp add: C_def cnt_def)
  from post have "\<forall>i<length [[1, 2], [3, 4 :: int]].
      [1, 0 :: nat] ! i = (if spec_gold R ([[1, 2], [3, 4]] ! i) then 1 else 0)"
    by blast
  from this[rule_format, of 1] have b: "\<not> spec_gold R [3, 4]"
    by (simp split: if_splits)
  from h1 a b show ?thesis unfolding R_def C_def by simp
qed


end
